theory Spec2Isabelle
  imports Main
begin

section \<open>The relational store\<close>

text \<open>
  The plugin keeps two tables. A row of \<^verbatim>\<open>tags\<close> has the columns \<^verbatim>\<open>id\<close>,
  \<^verbatim>\<open>text\<close>, \<^verbatim>\<open>namespace\<close>, \<^verbatim>\<open>count\<close> (default 0) and the two nullable
  timestamps; a row of \<^verbatim>\<open>tags_associations\<close> has \<^verbatim>\<open>tag_id1\<close> and \<^verbatim>\<open>tag_id2\<close>.
  Tables are lists of rows in insertion order, and a select without \<^verbatim>\<open>order by\<close>
  returns its rows in that order (a table scan of the default SQLite client). Ids are
  natural numbers, counters are integers (no call writes \<^verbatim>\<open>null\<close> there), and a
  timestamp is a reading of the clock. Column names that are Isabelle keywords or HOL
  constants carry the prefix \<open>row_\<close>.
\<close>

record tag_row =
  row_id :: nat
  row_text :: string
  row_namespace :: string
  row_count :: int
  created_at :: "nat option"
  updated_at :: "nat option"

record assoc =
  tag_id1 :: nat
  tag_id2 :: nat

text \<open>
  \<open>seq\<close> is the entry of the \<^verbatim>\<open>tags\<close> table in \<^verbatim>\<open>sqlite_sequence\<close>: the largest id
  the auto-increment key has handed out.
\<close>

record store =
  tags_table :: "tag_row list"
  tags_associations :: "assoc list"
  seq :: nat

text \<open>The module object: the connection's store and the two fields the methods assign.\<close>

datatype operation = Associate | Describe | Search

record tiq =
  db :: store
  schemaCreated :: bool
  pendingOperations :: "operation list"

text \<open>
  The queries of the transaction, in the order \<^verbatim>\<open>associate\<close> issues them. Any of them can
  be rejected by the storage layer; \<open>failing\<close> says which. The two readings of the clock
  (\<^verbatim>\<open>new Date()\<close> when labels are created, and again when counters are updated) are inputs.
\<close>

datatype step = FetchExisting | InsertTags | FetchMissing | FetchAssocs | InsertAssocs | UpdateCounts

datatype error = ConnectivityError step | UniqueViolation step

record env =
  failing :: "step \<Rightarrow> bool"
  now_created :: nat
  now_updated :: nat

text \<open>A settled promise. A method that returns \<^verbatim>\<open>undefined\<close> returns \<open>None\<close>.\<close>

datatype 'a promise = Fulfilled 'a | Rejected error

section \<open>Array helpers (lodash)\<close>

text \<open>\<^verbatim>\<open>_.uniq\<close>: walk the array and push every value not pushed before.\<close>

fun baseUniq :: "'a list \<Rightarrow> 'a list \<Rightarrow> 'a list" where
  "baseUniq result [] = result"
| "baseUniq result (x # xs) =
     (if x \<in> set result then baseUniq result xs else baseUniq (result @ [x]) xs)"

definition uniq :: "'a list \<Rightarrow> 'a list" where
  "uniq xs = baseUniq [] xs"

text \<open>\<^verbatim>\<open>_.difference\<close> and \<^verbatim>\<open>_.xor\<close> (the symmetric difference of two arrays).\<close>

definition difference :: "'a list \<Rightarrow> 'a list \<Rightarrow> 'a list" where
  "difference xs ys = filter (\<lambda>x. x \<notin> set ys) xs"

definition xor_arrays :: "'a list \<Rightarrow> 'a list \<Rightarrow> 'a list" where
  "xor_arrays xs ys = uniq (difference xs ys @ difference ys xs)"

text \<open>
  \<^verbatim>\<open>_.intersection\<close> of a list of arrays: the distinct values of the first array that
  occur in every other one; of no arrays, the empty array.
\<close>

fun intersection :: "'a list list \<Rightarrow> 'a list" where
  "intersection [] = []"
| "intersection (xs # xss) = filter (\<lambda>x. list_all (\<lambda>ys. x \<in> set ys) xss) (uniq xs)"

text \<open>\<^verbatim>\<open>_.values\<close> of an association row, and the comparison up to reversal.\<close>

definition values_of :: "assoc \<Rightarrow> nat list" where
  "values_of a = [tag_id1 a, tag_id2 a]"

definition equalArrays :: "nat list \<Rightarrow> nat list \<Rightarrow> bool" where
  "equalArrays arr1 arr2 = (arr1 = arr2 \<or> arr1 = rev arr2)"

section \<open>Queries\<close>

text \<open>\<^verbatim>\<open>ns || 'public'\<close>: a missing or empty namespace is \<^verbatim>\<open>'public'\<close>.\<close>

definition nsOrDefault :: "string option \<Rightarrow> string" where
  "nsOrDefault ns = (case ns of None \<Rightarrow> ''public'' | Some n \<Rightarrow> if n = [] then ''public'' else n)"

text \<open>
  \<^verbatim>\<open>select id, text from tags where text in (...) and namespace = ns\<close>; the result
  objects \<^verbatim>\<open>{id, text}\<close> are pairs.
\<close>

definition select_tags :: "store \<Rightarrow> string list \<Rightarrow> string \<Rightarrow> (nat \<times> string) list" where
  "select_tags s texts ns =
     map (\<lambda>r. (row_id r, row_text r))
       (filter (\<lambda>r. row_text r \<in> set texts \<and> row_namespace r = ns) (tags_table s))"

text \<open>
  The auto-increment key: one more than the largest id in the table or ever handed out.
\<close>

definition next_id :: "store \<Rightarrow> nat" where
  "next_id s = Suc (fold max (map row_id (tags_table s)) (seq s))"

text \<open>
  Insert of \<^verbatim>\<open>{text, namespace, created_at, updated_at}\<close> objects, row by row. The
  constraint \<^verbatim>\<open>unique(text, namespace)\<close> rejects the statement.
\<close>

fun insert_tags :: "store \<Rightarrow> (string \<times> string \<times> nat \<times> nat) list \<Rightarrow> error + store" where
  "insert_tags s [] = Inr s"
| "insert_tags s ((t, ns, c, u) # objs) =
     (if \<exists>r \<in> set (tags_table s). row_text r = t \<and> row_namespace r = ns
      then Inl (UniqueViolation InsertTags)
      else insert_tags
        (s\<lparr>tags_table := tags_table s @
              [\<lparr>row_id = next_id s, row_text = t, row_namespace = ns, row_count = 0,
                created_at = Some c, updated_at = Some u\<rparr>],
           seq := next_id s\<rparr>) objs)"

text \<open>\<^verbatim>\<open>select tag_id1, tag_id2 from tags_associations where tag_id1 in (...)\<close>.\<close>

definition select_assocs :: "store \<Rightarrow> nat list \<Rightarrow> assoc list" where
  "select_assocs s ids = filter (\<lambda>a. tag_id1 a \<in> set ids) (tags_associations s)"

text \<open>Insert of association rows; \<^verbatim>\<open>unique(tag_id1, tag_id2)\<close> rejects the statement.\<close>

fun insert_assocs :: "store \<Rightarrow> assoc list \<Rightarrow> error + store" where
  "insert_assocs s [] = Inr s"
| "insert_assocs s (a # as) =
     (if a \<in> set (tags_associations s) then Inl (UniqueViolation InsertAssocs)
      else insert_assocs (s\<lparr>tags_associations := tags_associations s @ [a]\<rparr>) as)"

text \<open>
  \<^verbatim>\<open>update tags set updated_at = ?, count = count + 1 where id in (...)\<close>.
\<close>

definition update_counts :: "store \<Rightarrow> nat list \<Rightarrow> nat \<Rightarrow> store" where
  "update_counts s ids u =
     s\<lparr>tags_table :=
         map (\<lambda>r. if row_id r \<in> set ids
                   then r\<lparr>updated_at := Some u, row_count := row_count r + 1\<rparr> else r)
           (tags_table s)\<rparr>"

section \<open>The module's methods\<close>

text \<open>
  \<^verbatim>\<open>createSchema\<close> memoises its promise in \<^verbatim>\<open>schemaCreated\<close>. Both tables exist in
  every store of this development, so both \<^verbatim>\<open>hasTable\<close> checks succeed and no table is
  created.
\<close>

definition createSchema :: "tiq \<Rightarrow> tiq" where
  "createSchema t = (if schemaCreated t then t else t\<lparr>schemaCreated := True\<rparr>)"

definition holdOperation :: "tiq \<Rightarrow> operation \<Rightarrow> tiq" where
  "holdOperation t p = t\<lparr>pendingOperations := [p]\<rparr>"

text \<open>
  One query of the promise chain: rejected when the storage layer fails at it. \<open>andThen\<close>
  is \<^verbatim>\<open>.then\<close> with a fulfilment handler only: a rejection passes through.
\<close>

definition query :: "env \<Rightarrow> step \<Rightarrow> (error + 'a) \<Rightarrow> error + 'a" where
  "query e k r = (if failing e k then Inl (ConnectivityError k) else r)"

definition andThen :: "(error + 'a) \<Rightarrow> ('a \<Rightarrow> error + 'b) \<Rightarrow> error + 'b" where
  "andThen r f = (case r of Inl err \<Rightarrow> Inl err | Inr x \<Rightarrow> f x)"

text \<open>The values the handlers of \<^verbatim>\<open>associate\<close> compute, named as in the source.\<close>

definition allTags :: "string list \<Rightarrow> string list \<Rightarrow> string list" where
  "allTags tokens tags = uniq (tokens @ tags)"

definition existingTags :: "store \<Rightarrow> string list \<Rightarrow> string list \<Rightarrow> string \<Rightarrow> (nat \<times> string) list" where
  "existingTags s tokens tags ns = select_tags s (allTags tokens tags) ns"

definition missingTagsRaw :: "store \<Rightarrow> string list \<Rightarrow> string list \<Rightarrow> string \<Rightarrow> string list" where
  "missingTagsRaw s tokens tags ns =
     xor_arrays (allTags tokens tags) (map snd (existingTags s tokens tags ns))"

text \<open>The partition of the fetched rows: a row whose text is among the tags is a tag.\<close>

definition tagIds :: "string list \<Rightarrow> (nat \<times> string) list \<Rightarrow> nat list" where
  "tagIds tags fetchedTags = map fst (filter (\<lambda>tag. snd tag \<in> set tags) fetchedTags)"

definition tokenIds :: "string list \<Rightarrow> (nat \<times> string) list \<Rightarrow> nat list" where
  "tokenIds tags fetchedTags = map fst (filter (\<lambda>tag. snd tag \<notin> set tags) fetchedTags)"

definition associations :: "string list \<Rightarrow> (nat \<times> string) list \<Rightarrow> assoc list" where
  "associations tags fetchedTags =
     concat (map (\<lambda>tid. map (\<lambda>t. \<lparr>tag_id1 = tid, tag_id2 = t\<rparr>) (tokenIds tags fetchedTags))
       (tagIds tags fetchedTags))"

definition missingAssocs :: "assoc list \<Rightarrow> assoc list \<Rightarrow> assoc list" where
  "missingAssocs existingAssocs assocs =
     filter (\<lambda>a. \<not> list_ex (\<lambda>ex. equalArrays (values_of a) (values_of ex)) existingAssocs)
       assocs"

text \<open>
  The body of the transaction: the chain of handlers, each on the store as the previous
  queries of the transaction left it.
\<close>

definition associate_trans :: "env \<Rightarrow> string list \<Rightarrow> string list \<Rightarrow> string \<Rightarrow> store \<Rightarrow> error + store" where
  "associate_trans e tokens tags ns s0 =
     andThen (query e FetchExisting (Inr (existingTags s0 tokens tags ns))) (\<lambda>existing.
     let missing = xor_arrays (allTags tokens tags) (map snd existing) in
     andThen (if missing \<noteq> []
              then query e InsertTags
                     (insert_tags s0 (map (\<lambda>t. (t, ns, now_created e, now_created e)) missing))
              else Inr s0) (\<lambda>s1.
     andThen (if missing = [] then Inr []
              else query e FetchMissing (Inr (select_tags s1 missing ns))) (\<lambda>missingTags.
     let fetchedTags = existing @ missingTags in
     andThen (query e FetchAssocs (Inr (select_assocs s1 (map fst fetchedTags)))) (\<lambda>existingAssocs.
     let missingA = missingAssocs existingAssocs (associations tags fetchedTags) in
     andThen (if missingA \<noteq> [] then query e InsertAssocs (insert_assocs s1 missingA)
              else Inr s1) (\<lambda>s2.
     let ids = uniq (map tag_id1 missingA @ map tag_id2 missingA) in
     if ids = [] then Inr s2
     else query e UpdateCounts (Inr (update_counts s2 ids (now_updated e))))))))"

text \<open>
  \<^verbatim>\<open>knex.transaction\<close>: the last \<^verbatim>\<open>.then\<close> commits what the chain wrote when it is
  fulfilled (the connection of the open transaction is there, and the commit goes
  through) and calls \<^verbatim>\<open>trans.rollback\<close> when it is rejected, which leaves the store as
  it was when the transaction began.
\<close>

definition transaction :: "store \<Rightarrow> (store \<Rightarrow> error + store) \<Rightarrow> unit promise \<times> store" where
  "transaction s body =
     (case body s of Inr s' \<Rightarrow> (Fulfilled (), s') | Inl err \<Rightarrow> (Rejected err, s))"

definition associate :: "env \<Rightarrow> tiq \<Rightarrow> string list \<Rightarrow> string list \<Rightarrow> string option \<Rightarrow> unit promise option \<times> tiq" where
  "associate e t tokens tags ns =
     (if tokens = [] \<or> tags = [] then (None, t)
      else
        let t1 = createSchema t;
            (p, s') = transaction (db t1) (associate_trans e tokens tags (nsOrDefault ns))
        in (Some p, holdOperation (t1\<lparr>db := s'\<rparr>) Associate))"

text \<open>
  The query \<^verbatim>\<open>describe\<close> builds for one token: the join of the association rows with the
  label rows on \<^verbatim>\<open>tag_id1 = id or tag_id2 = id\<close>, restricted to the token's text and the
  namespace, selecting the \<^verbatim>\<open>case\<close> expression, which is \<^verbatim>\<open>null\<close> (\<open>None\<close>) when
  neither branch applies. \<^verbatim>\<open>describe\<close> and \<^verbatim>\<open>search\<close> only read; their queries are
  taken to be answered by the storage layer.
\<close>

definition rawCase :: "assoc \<Rightarrow> tag_row \<Rightarrow> nat option" where
  "rawCase a r =
     (if tag_id1 a = row_id r then Some (tag_id2 a)
      else if tag_id2 a = row_id r then Some (tag_id1 a)
      else None)"

definition neighbour_query :: "store \<Rightarrow> string \<Rightarrow> string \<Rightarrow> nat option list" where
  "neighbour_query s tok ns =
     [rawCase a r. a \<leftarrow> tags_associations s, r \<leftarrow> tags_table s,
        tag_id1 a = row_id r \<or> tag_id2 a = row_id r,
        row_text r = tok \<and> row_namespace r = ns]"

text \<open>\<^verbatim>\<open>select text from tags where id in (...)\<close>, plucked.\<close>

definition select_texts :: "store \<Rightarrow> nat option list \<Rightarrow> string list" where
  "select_texts s ids = map row_text (filter (\<lambda>r. Some (row_id r) \<in> set ids) (tags_table s))"

definition describe :: "tiq \<Rightarrow> string list \<Rightarrow> string option \<Rightarrow> string list promise option \<times> tiq" where
  "describe t tokens ns =
     (if tokens = [] then (None, t)
      else
        let t1 = createSchema t;
            allIds = map (\<lambda>tok. neighbour_query (db t1) tok (nsOrDefault ns)) (uniq tokens);
            ids = intersection allIds
        in (Some (Fulfilled (if ids = [] then [] else select_texts (db t1) ids)),
            holdOperation t1 Describe))"

text \<open>
  The \<^verbatim>\<open>like\<close> operator of the store: \<^verbatim>\<open>%\<close> matches any run of characters, \<^verbatim>\<open>_\<close> any
  one character, and a letter matches in either case (SQLite folds the case of the ASCII
  letters). No escape character is declared by the query.
\<close>

definition lower :: "char \<Rightarrow> char" where
  "lower c = (if 65 \<le> (of_char c :: nat) \<and> (of_char c :: nat) \<le> 90
              then char_of ((of_char c :: nat) + 32) else c)"

fun like :: "string \<Rightarrow> string \<Rightarrow> bool" where
  "like [] [] = True"
| "like [] (c # cs) = False"
| "like (p # ps) [] = (p = CHR ''%'' \<and> like ps [])"
| "like (p # ps) (c # cs) =
     (if p = CHR ''%'' then like ps (c # cs) \<or> like (p # ps) cs
      else (p = CHR ''_'' \<or> lower p = lower c) \<and> like ps cs)"

definition search :: "tiq \<Rightarrow> string \<Rightarrow> string option \<Rightarrow> string list promise option \<times> tiq" where
  "search t txt ns =
     (if txt = [] then (None, t)
      else
        let t1 = createSchema t
        in (Some (Fulfilled
              (map row_text
                 (filter (\<lambda>r. like (''%'' @ txt @ ''%'') (row_text r) \<and>
                               row_namespace r = nsOrDefault ns)
                    (tags_table (db t1))))),
            holdOperation t1 Search))"

section \<open>Notions the properties are stated with\<close>

text \<open>
  A label with id \<open>i\<close> is connected to the token \<open>tok\<close> of namespace \<open>ns\<close> when an
  association row holds, in either order, \<open>i\<close> and the id of a label row with that text
  and namespace.
\<close>

definition connected :: "store \<Rightarrow> string \<Rightarrow> string \<Rightarrow> nat \<Rightarrow> bool" where
  "connected s tok ns i =
     (\<exists>a\<in>set (tags_associations s). \<exists>q\<in>set (tags_table s).
        row_text q = tok \<and> row_namespace q = ns \<and>
        (tag_id1 a = row_id q \<and> tag_id2 a = i \<or> tag_id2 a = row_id q \<and> tag_id1 a = i))"

text \<open>Whether \<open>q\<close> occurs in \<open>txt\<close> as a literal substring.\<close>

fun starts_with :: "string \<Rightarrow> string \<Rightarrow> bool" where
  "starts_with [] txt = True"
| "starts_with (q # qs) [] = False"
| "starts_with (q # qs) (c # cs) = (q = c \<and> starts_with qs cs)"

fun substring :: "string \<Rightarrow> string \<Rightarrow> bool" where
  "substring q [] = (q = [])"
| "substring q (c # cs) = (starts_with q (c # cs) \<or> substring q cs)"

text \<open>
  What a call writes, as functions of the store it starts from: the rows created for the
  missing texts (ids counted up from the auto-increment key), the rows of
  \<^verbatim>\<open>scope.fetchedTags\<close>, the rows of \<^verbatim>\<open>scope.missingAssocs\<close>, the ids whose counter is
  incremented, and the update of one row. That a fulfilled transaction writes exactly
  these is the lemma \<open>associate_trans_Inr\<close>.
\<close>

fun created_rows :: "nat \<Rightarrow> string \<Rightarrow> nat \<Rightarrow> string list \<Rightarrow> tag_row list" where
  "created_rows i ns c [] = []"
| "created_rows i ns c (t # ts) =
     \<lparr>row_id = i, row_text = t, row_namespace = ns, row_count = 0,
      created_at = Some c, updated_at = Some c\<rparr> # created_rows (Suc i) ns c ts"

definition createdTags :: "env \<Rightarrow> store \<Rightarrow> string list \<Rightarrow> string list \<Rightarrow> string \<Rightarrow> tag_row list" where
  "createdTags e s tokens tags ns =
     created_rows (next_id s) ns (now_created e) (missingTagsRaw s tokens tags ns)"

definition fetchedTags :: "env \<Rightarrow> store \<Rightarrow> string list \<Rightarrow> string list \<Rightarrow> string \<Rightarrow> (nat \<times> string) list" where
  "fetchedTags e s tokens tags ns =
     existingTags s tokens tags ns @
     map (\<lambda>r. (row_id r, row_text r)) (createdTags e s tokens tags ns)"

definition insertedAssocs :: "env \<Rightarrow> store \<Rightarrow> string list \<Rightarrow> string list \<Rightarrow> string \<Rightarrow> assoc list" where
  "insertedAssocs e s tokens tags ns =
     missingAssocs (select_assocs s (map fst (fetchedTags e s tokens tags ns)))
       (associations tags (fetchedTags e s tokens tags ns))"

definition countedIds :: "env \<Rightarrow> store \<Rightarrow> string list \<Rightarrow> string list \<Rightarrow> string \<Rightarrow> nat list" where
  "countedIds e s tokens tags ns =
     uniq (map tag_id1 (insertedAssocs e s tokens tags ns) @
           map tag_id2 (insertedAssocs e s tokens tags ns))"

definition bump :: "nat list \<Rightarrow> nat \<Rightarrow> tag_row \<Rightarrow> tag_row" where
  "bump ids u r =
     (if row_id r \<in> set ids then r\<lparr>updated_at := Some u, row_count := row_count r + 1\<rparr> else r)"

text \<open>
  The counter of the label with id \<open>i\<close> (0 when there is no such row), and the number of
  association rows touching \<open>i\<close> that are in the store \<open>s'\<close> and were not in \<open>s\<close>.
\<close>

definition count_of :: "store \<Rightarrow> nat \<Rightarrow> int" where
  "count_of s i = (case find (\<lambda>r. row_id r = i) (tags_table s) of None \<Rightarrow> 0 | Some r \<Rightarrow> row_count r)"

definition gained :: "store \<Rightarrow> store \<Rightarrow> nat \<Rightarrow> nat" where
  "gained s s' i =
     length (filter (\<lambda>a. a \<notin> set (tags_associations s) \<and> (tag_id1 a = i \<or> tag_id2 a = i))
       (tags_associations s'))"

text \<open>
  An association row as an unordered pair: the smaller endpoint first.
\<close>

definition canon :: "assoc \<Rightarrow> nat \<times> nat" where
  "canon a = (min (tag_id1 a) (tag_id2 a), max (tag_id1 a) (tag_id2 a))"

text \<open>
  The constraints \<^verbatim>\<open>createSchema\<close> declares: \<^verbatim>\<open>id\<close> is the primary key of \<^verbatim>\<open>tags\<close>,
  \<^verbatim>\<open>unique(text, namespace)\<close> and \<^verbatim>\<open>unique(tag_id1, tag_id2)\<close>.
\<close>

definition schema_ok :: "store \<Rightarrow> bool" where
  "schema_ok s \<longleftrightarrow>
     distinct (map row_id (tags_table s)) \<and>
     distinct (map (\<lambda>r. (row_text r, row_namespace r)) (tags_table s)) \<and>
     distinct (tags_associations s)"

text \<open>
  A store is consistent when it satisfies the declared constraints and, beyond them, no
  two association rows hold the same unordered pair. The empty store is consistent and
  \<^verbatim>\<open>associate\<close> keeps a store consistent (\<open>consistent_fresh\<close>, \<open>consistent_associate\<close>).
\<close>

definition consistent :: "store \<Rightarrow> bool" where
  "consistent s \<longleftrightarrow> schema_ok s \<and> distinct (map canon (tags_associations s))"

text \<open>
  The label rows with a text in a namespace, and the association rows between two ids in
  either endpoint order.
\<close>

definition label_rows :: "store \<Rightarrow> string \<Rightarrow> string \<Rightarrow> tag_row list" where
  "label_rows s txt ns = filter (\<lambda>r. row_text r = txt \<and> row_namespace r = ns) (tags_table s)"

definition edges_between :: "store \<Rightarrow> nat \<Rightarrow> nat \<Rightarrow> assoc list" where
  "edges_between s i j =
     filter (\<lambda>a. tag_id1 a = i \<and> tag_id2 a = j \<or> tag_id1 a = j \<and> tag_id2 a = i)
       (tags_associations s)"

text \<open>
  Whether the transaction issues the query \<open>k\<close> when no query before it is rejected: the
  two inserts and the re-fetch are skipped when there is nothing to insert, and so is
  the counter update.
\<close>

definition issued :: "env \<Rightarrow> store \<Rightarrow> string list \<Rightarrow> string list \<Rightarrow> string \<Rightarrow> step \<Rightarrow> bool" where
  "issued e s tokens tags ns k =
     (case k of
        FetchExisting \<Rightarrow> True
      | InsertTags \<Rightarrow> missingTagsRaw s tokens tags ns \<noteq> []
      | FetchMissing \<Rightarrow> missingTagsRaw s tokens tags ns \<noteq> []
      | FetchAssocs \<Rightarrow> True
      | InsertAssocs \<Rightarrow> insertedAssocs e s tokens tags ns \<noteq> []
      | UpdateCounts \<Rightarrow> insertedAssocs e s tokens tags ns \<noteq> [])"

subsection \<open>Example stores\<close>

definition label :: "nat \<Rightarrow> string \<Rightarrow> string \<Rightarrow> int \<Rightarrow> tag_row" where
  "label i t ns c =
     \<lparr>row_id = i, row_text = t, row_namespace = ns, row_count = c,
      created_at = None, updated_at = None\<rparr>"

definition fresh :: tiq where
  "fresh = \<lparr>db = \<lparr>tags_table = [], tags_associations = [], seq = 0\<rparr>,
            schemaCreated = False, pendingOperations = []\<rparr>"

definition peter_store :: tiq where
  "peter_store =
     \<lparr>db = \<lparr>tags_table = [label 1 ''what'' ''public'' 1, label 2 ''yes'' ''public'' 1,
                           label 3 ''peter'' ''public'' 1, label 4 ''peter'' ''private'' 0],
            tags_associations = [\<lparr>tag_id1 = 3, tag_id2 = 1\<rparr>, \<lparr>tag_id1 = 2, tag_id2 = 3\<rparr>],
            seq = 4\<rparr>,
      schemaCreated = True, pendingOperations = []\<rparr>"

definition reliable :: env where
  "reliable = \<lparr>failing = (\<lambda>k. False), now_created = 1, now_updated = 2\<rparr>"

definition failing_at :: "step \<Rightarrow> env" where
  "failing_at k = \<lparr>failing = (\<lambda>j. j = k), now_created = 1, now_updated = 2\<rparr>"

section \<open>Array helpers\<close>

lemma set_baseUniq: "set (baseUniq result xs) = set result \<union> set xs"
  by (induction xs arbitrary: result) auto

lemma distinct_baseUniq: "distinct result \<Longrightarrow> distinct (baseUniq result xs)"
  by (induction xs arbitrary: result) auto

lemma set_uniq: "set (uniq xs) = set xs"
  by (simp add: uniq_def set_baseUniq)

lemma distinct_uniq: "distinct (uniq xs)"
  by (simp add: uniq_def distinct_baseUniq)

lemma uniq_eq_Nil: "uniq xs = [] \<longleftrightarrow> xs = []"
  by (metis set_uniq set_empty)

lemma set_xor_arrays: "set (xor_arrays xs ys) = (set xs - set ys) \<union> (set ys - set xs)"
  by (auto simp: xor_arrays_def set_uniq difference_def)

lemma distinct_xor_arrays: "distinct (xor_arrays xs ys)"
  by (simp add: xor_arrays_def distinct_uniq)

lemma set_intersection:
  "xss \<noteq> [] \<Longrightarrow> x \<in> set (intersection xss) \<longleftrightarrow> (\<forall>ys\<in>set xss. x \<in> set ys)"
  by (cases xss) (auto simp: set_uniq list_all_iff)

lemma intersection_Nil_mem: "[] \<in> set xss \<Longrightarrow> intersection xss = []"
proof (cases xss)
  case Nil
  then show ?thesis by simp
next
  case (Cons xs yss)
  assume "[] \<in> set xss"
  with Cons have "xs = [] \<or> [] \<in> set yss" by auto
  then show ?thesis
  proof
    assume "xs = []"
    with Cons show ?thesis by (simp add: uniq_def)
  next
    assume "[] \<in> set yss"
    then have "\<And>x. \<not> list_all (\<lambda>ys. x \<in> set ys) yss"
      by (force simp: list_all_iff)
    with Cons show ?thesis by simp
  qed
qed

section \<open>Empty input\<close>

text \<open>
  Claim C7, as amended. With an empty token list or an empty tag list \<^verbatim>\<open>associate\<close>
  returns at once: its value is \<^verbatim>\<open>undefined\<close>, and the module object with its store is
  exactly as before (no schema check, no transaction, no operation held). With an empty
  token list \<^verbatim>\<open>describe\<close> returns at once in the same way, whatever the store holds:
  its value is \<^verbatim>\<open>undefined\<close>, neither a promise nor a list. No promise is created, so
  none is rejected.
\<close>

theorem empty_input_noop:
  "associate e t [] tags ns = (None, t) \<and> associate e t tokens [] ns = (None, t) \<and>
   describe t [] ns = (None, t)"
  by (simp add: associate_def describe_def)

text \<open>
  The claim as stated, an empty result from \<^verbatim>\<open>describe\<close>, fails: for the empty token
  list the value is \<^verbatim>\<open>undefined\<close>, not a promise fulfilled with the empty list, which is
  what \<^verbatim>\<open>describe\<close> gives for an unknown token.
\<close>

theorem describe_empty_counterexample:
  "describe peter_store [] None = (None, peter_store) \<and>
   fst (describe peter_store [] None) \<noteq> Some (Fulfilled [])"
  by (simp add: describe_def)

section \<open>Evaluation on concrete stores\<close>

text \<open>The definitions a call on a concrete store unfolds to.\<close>

lemmas associate_eval =
  associate_def createSchema_def transaction_def associate_trans_def andThen_def query_def
  existingTags_def allTags_def uniq_def xor_arrays_def difference_def select_tags_def
  nsOrDefault_def next_id_def select_assocs_def missingAssocs_def associations_def
  tagIds_def tokenIds_def equalArrays_def values_of_def update_counts_def holdOperation_def
  Let_def fresh_def peter_store_def reliable_def failing_at_def label_def

section \<open>Describe\<close>

lemma rawCase_Some:
  "(tag_id1 a = row_id r \<or> tag_id2 a = row_id r) \<and> rawCase a r = Some i \<longleftrightarrow>
   (tag_id1 a = row_id r \<and> tag_id2 a = i \<or> tag_id2 a = row_id r \<and> tag_id1 a = i)"
  by (auto simp: rawCase_def)

lemma set_neighbour_query:
  "set (neighbour_query s tok ns) =
     {rawCase a r |a r. a \<in> set (tags_associations s) \<and> r \<in> set (tags_table s) \<and>
        (tag_id1 a = row_id r \<or> tag_id2 a = row_id r) \<and> row_text r = tok \<and> row_namespace r = ns}"
  unfolding neighbour_query_def by auto

lemma neighbour_query_iff:
  "Some i \<in> set (neighbour_query s tok ns) \<longleftrightarrow> connected s tok ns i"
proof
  assume "Some i \<in> set (neighbour_query s tok ns)"
  then obtain a r where ar: "a \<in> set (tags_associations s)" "r \<in> set (tags_table s)"
    "row_text r = tok" "row_namespace r = ns"
    and c: "(tag_id1 a = row_id r \<or> tag_id2 a = row_id r) \<and> rawCase a r = Some i"
    unfolding set_neighbour_query by force
  from c have "tag_id1 a = row_id r \<and> tag_id2 a = i \<or> tag_id2 a = row_id r \<and> tag_id1 a = i"
    by (simp only: rawCase_Some)
  with ar show "connected s tok ns i"
    unfolding connected_def by blast
next
  assume "connected s tok ns i"
  then obtain a r where ar: "a \<in> set (tags_associations s)" "r \<in> set (tags_table s)"
    "row_text r = tok" "row_namespace r = ns"
    and c: "tag_id1 a = row_id r \<and> tag_id2 a = i \<or> tag_id2 a = row_id r \<and> tag_id1 a = i"
    unfolding connected_def by blast
  from c have "(tag_id1 a = row_id r \<or> tag_id2 a = row_id r) \<and> rawCase a r = Some i"
    by (simp only: rawCase_Some)
  with ar show "Some i \<in> set (neighbour_query s tok ns)"
    unfolding set_neighbour_query by force
qed

lemma select_texts_Nil: "select_texts s [] = []"
  by (simp add: select_texts_def)

lemma createSchema_db: "db (createSchema t) = db t"
  by (simp add: createSchema_def)

lemma describe_result:
  "tokens \<noteq> [] \<Longrightarrow>
   fst (describe t tokens ns) =
     Some (Fulfilled (select_texts (db t)
       (intersection (map (\<lambda>tok. neighbour_query (db t) tok (nsOrDefault ns)) (uniq tokens)))))"
  by (simp add: describe_def Let_def createSchema_db select_texts_Nil)

text \<open>
  Claim C4. For a non-empty token list, \<^verbatim>\<open>describe\<close> is fulfilled with the texts of exactly
  the label rows whose id is connected, by an association row in either endpoint order, to
  every query token of the namespace: the rows are those whose id is in the neighbour
  list of every per-token query, listed in table order.
\<close>

theorem describe_intersection:
  "tokens \<noteq> [] \<Longrightarrow>
   fst (describe t tokens ns) =
     Some (Fulfilled (map row_text
       (filter (\<lambda>r. \<forall>tok\<in>set tokens. connected (db t) tok (nsOrDefault ns) (row_id r))
          (tags_table (db t)))))"
proof -
  assume ne: "tokens \<noteq> []"
  let ?qs = "map (\<lambda>tok. neighbour_query (db t) tok (nsOrDefault ns)) (uniq tokens)"
  from ne have qne: "?qs \<noteq> []" by (simp add: uniq_eq_Nil)
  have "\<And>i. Some i \<in> set (intersection ?qs) \<longleftrightarrow>
      (\<forall>tok\<in>set tokens. connected (db t) tok (nsOrDefault ns) i)"
    by (simp add: set_intersection [OF qne] set_uniq neighbour_query_iff)
  then have "select_texts (db t) (intersection ?qs) =
      map row_text (filter (\<lambda>r. \<forall>tok\<in>set tokens. connected (db t) tok (nsOrDefault ns) (row_id r))
        (tags_table (db t)))"
    by (simp add: select_texts_def)
  with describe_result [OF ne, of t ns] show ?thesis by simp
qed

lemmas describe_eval =
  connected_def nsOrDefault_def peter_store_def label_def

theorem describe_intersection_witness:
  "fst (describe peter_store [''what'', ''yes'', ''what''] None) = Some (Fulfilled [''peter''])"
proof -
  have ne: "[''what'', ''yes'', ''what''] \<noteq> []" by simp
  show ?thesis
    unfolding describe_intersection [OF ne] by (simp add: describe_eval)
qed

text \<open>
  Claim C6. When one of the tokens has no label row in the namespace, or every label row
  it has there is touched by no association row, \<^verbatim>\<open>describe\<close> is fulfilled with the empty
  list: the promise is not rejected.
\<close>

theorem describe_unknown_token:
  assumes "tok \<in> set tokens"
    and "\<forall>r\<in>set (tags_table (db t)). row_text r = tok \<and> row_namespace r = nsOrDefault ns \<longrightarrow>
           (\<forall>a\<in>set (tags_associations (db t)). tag_id1 a \<noteq> row_id r \<and> tag_id2 a \<noteq> row_id r)"
  shows "fst (describe t tokens ns) = Some (Fulfilled [])"
proof -
  from assms(1) have ne: "tokens \<noteq> []" by auto
  let ?qs = "map (\<lambda>tok. neighbour_query (db t) tok (nsOrDefault ns)) (uniq tokens)"
  from assms(2) have "neighbour_query (db t) tok (nsOrDefault ns) = []"
    unfolding neighbour_query_def by auto
  with assms(1) have "[] \<in> set ?qs" by (force simp: set_uniq)
  then have "intersection ?qs = []" by (rule intersection_Nil_mem)
  with ne show ?thesis by (simp add: describe_def Let_def createSchema_db)
qed

theorem describe_unknown_token_witness:
  "fst (describe peter_store [''what'', ''zzz''] None) = Some (Fulfilled []) \<and>
   fst (describe peter_store [''what'', ''peter''] (Some ''private'')) = Some (Fulfilled [])"
proof -
  have m1: "''zzz'' \<in> set [''what'', ''zzz'']" by simp
  have h1: "\<forall>r\<in>set (tags_table (db peter_store)).
      row_text r = ''zzz'' \<and> row_namespace r = nsOrDefault None \<longrightarrow>
      (\<forall>a\<in>set (tags_associations (db peter_store)). tag_id1 a \<noteq> row_id r \<and> tag_id2 a \<noteq> row_id r)"
    by (simp add: describe_eval)
  have m2: "''peter'' \<in> set [''what'', ''peter'']" by simp
  have h2: "\<forall>r\<in>set (tags_table (db peter_store)).
      row_text r = ''peter'' \<and> row_namespace r = nsOrDefault (Some ''private'') \<longrightarrow>
      (\<forall>a\<in>set (tags_associations (db peter_store)). tag_id1 a \<noteq> row_id r \<and> tag_id2 a \<noteq> row_id r)"
    by (simp add: describe_eval)
  from describe_unknown_token [OF m1 h1] describe_unknown_token [OF m2 h2]
  show ?thesis by simp
qed

section \<open>Search\<close>

lemma like_any: "like ''%%%'' cs"
  by (induction cs) auto

text \<open>
  Claim C10. \<^verbatim>\<open>search\<close> puts its argument between two \<^verbatim>\<open>%\<close> unescaped, so the wildcards
  of \<^verbatim>\<open>like\<close> in the argument stay wildcards. For every store and namespace, the search
  for \<^verbatim>\<open>%\<close> is fulfilled with the text of every label row of the namespace; and a search
  can return a text that does not contain the argument as a literal substring: the
  search for \<^verbatim>\<open>p_t\<close> returns \<^verbatim>\<open>peter\<close>.
\<close>

theorem search_wildcards:
  "fst (search t ''%'' ns) =
     Some (Fulfilled (map row_text
       (filter (\<lambda>r. row_namespace r = nsOrDefault ns) (tags_table (db t))))) \<and>
   fst (search peter_store ''p_t'' None) = Some (Fulfilled [''peter'']) \<and>
   \<not> substring ''p_t'' ''peter''"
proof -
  have "fst (search t ''%'' ns) =
     Some (Fulfilled (map row_text
       (filter (\<lambda>r. row_namespace r = nsOrDefault ns) (tags_table (db t)))))"
    using like_any by (simp add: search_def Let_def createSchema_db)
  moreover have "fst (search peter_store ''p_t'' None) = Some (Fulfilled [''peter''])"
    by (simp add: search_def Let_def createSchema_def nsOrDefault_def peter_store_def
        label_def lower_def)
  moreover have "\<not> substring ''p_t'' ''peter''" by simp
  ultimately show ?thesis by simp
qed

section \<open>What a fulfilled transaction writes\<close>

lemma fold_max_ge: "a \<le> fold max xs (a::nat)"
  by (induction xs arbitrary: a) (auto intro: order_trans [OF max.cobounded2])

lemma fold_max_mem: "x \<in> set xs \<Longrightarrow> x \<le> fold max xs (a::nat)"
  by (induction xs arbitrary: a) (auto intro: order_trans [OF max.cobounded1 fold_max_ge])

lemma fold_max_absorb: "\<forall>x\<in>set xs. x \<le> a \<Longrightarrow> fold max xs (a::nat) = a"
  by (induction xs arbitrary: a) (auto simp: max_def)

lemma next_id_fresh: "r \<in> set (tags_table s) \<Longrightarrow> row_id r < next_id s"
  by (simp add: next_id_def less_Suc_eq_le fold_max_mem)

lemma next_id_insert:
  "next_id (s\<lparr>tags_table := tags_table s @ [r\<lparr>row_id := next_id s\<rparr>], seq := next_id s\<rparr>)
     = Suc (next_id s)"
proof -
  have "\<forall>x\<in>set (map row_id (tags_table s)). x \<le> next_id s"
    using next_id_fresh [of _ s] by (auto intro: less_imp_le)
  then have "fold max (map row_id (tags_table s)) (next_id s) = next_id s"
    by (rule fold_max_absorb)
  then show ?thesis by (simp add: next_id_def)
qed

lemma insert_tags_Inr:
  "insert_tags s (map (\<lambda>t. (t, ns, c, c)) texts) = Inr s' \<Longrightarrow>
   tags_table s' = tags_table s @ created_rows (next_id s) ns c texts \<and>
   tags_associations s' = tags_associations s"
proof (induction texts arbitrary: s)
  case Nil
  then show ?case by simp
next
  case (Cons t ts)
  let ?r = "\<lparr>row_id = next_id s, row_text = t, row_namespace = ns, row_count = 0,
             created_at = Some c, updated_at = Some c\<rparr>"
  let ?s = "s\<lparr>tags_table := tags_table s @ [?r], seq := next_id s\<rparr>"
  from Cons.prems have step: "insert_tags ?s (map (\<lambda>t. (t, ns, c, c)) ts) = Inr s'"
    by (simp split: if_splits)
  have "next_id ?s = Suc (next_id s)"
    using next_id_insert [of s ?r] by simp
  with Cons.IH [OF step] show ?case by simp
qed

lemma insert_assocs_Inr:
  "insert_assocs s as = Inr s' \<Longrightarrow> s' = s\<lparr>tags_associations := tags_associations s @ as\<rparr>"
proof (induction as arbitrary: s)
  case Nil
  then show ?case by simp
next
  case (Cons a as)
  from Cons.prems
  have "insert_assocs (s\<lparr>tags_associations := tags_associations s @ [a]\<rparr>) as = Inr s'"
    by (simp split: if_splits)
  from Cons.IH [OF this] show ?case by simp
qed

lemma created_rows_text: "map row_text (created_rows i ns c ts) = ts"
  by (induction ts arbitrary: i) auto

lemma created_rows_ids: "map row_id (created_rows i ns c ts) = [i ..< i + length ts]"
  by (induction ts arbitrary: i) (auto simp: upt_rec)

lemma created_rows_props:
  "r \<in> set (created_rows i ns c ts) \<Longrightarrow>
   row_namespace r = ns \<and> row_count r = 0 \<and> row_text r \<in> set ts"
  by (induction ts arbitrary: i) auto

lemma created_rows_id_ge: "r \<in> set (created_rows i ns c ts) \<Longrightarrow> i \<le> row_id r"
proof -
  assume "r \<in> set (created_rows i ns c ts)"
  then have "row_id r \<in> set (map row_id (created_rows i ns c ts))" by simp
  then show ?thesis by (simp add: created_rows_ids)
qed

lemma select_created:
  "set ts \<subseteq> set texts \<Longrightarrow>
   filter (\<lambda>r. row_text r \<in> set texts \<and> row_namespace r = ns) (created_rows i ns c ts)
     = created_rows i ns c ts"
  by (induction ts arbitrary: i) auto

lemma set_existing_texts:
  "set (map snd (existingTags s tokens tags ns)) \<subseteq> set (allTags tokens tags)"
  by (auto simp: existingTags_def select_tags_def)

lemma missing_no_row:
  "r \<in> set (tags_table s) \<Longrightarrow> row_namespace r = ns \<Longrightarrow>
   row_text r \<notin> set (missingTagsRaw s tokens tags ns)"
  by (auto simp: missingTagsRaw_def set_xor_arrays existingTags_def select_tags_def)

lemma select_missing:
  assumes "tags_table s1 = tags_table s @ createdTags e s tokens tags ns"
  shows "select_tags s1 (missingTagsRaw s tokens tags ns) ns =
         map (\<lambda>r. (row_id r, row_text r)) (createdTags e s tokens tags ns)"
proof -
  have "filter (\<lambda>r. row_text r \<in> set (missingTagsRaw s tokens tags ns) \<and> row_namespace r = ns)
          (tags_table s) = []"
    using missing_no_row [of _ s ns tokens tags] by (auto simp: filter_empty_conv)
  then show ?thesis
    by (simp add: select_tags_def assms createdTags_def select_created)
qed

lemma associate_trans_steps:
  assumes "associate_trans e tokens tags ns s = Inr s'"
  shows "\<exists>s1 s2.
     (missingTagsRaw s tokens tags ns = [] \<and> s1 = s \<or>
      insert_tags s (map (\<lambda>t. (t, ns, now_created e, now_created e))
        (missingTagsRaw s tokens tags ns)) = Inr s1) \<and>
     (let fetched = existingTags s tokens tags ns @
            (if missingTagsRaw s tokens tags ns = [] then []
             else select_tags s1 (missingTagsRaw s tokens tags ns) ns);
          newA = missingAssocs (select_assocs s1 (map fst fetched)) (associations tags fetched);
          ids = uniq (map tag_id1 newA @ map tag_id2 newA)
      in (newA = [] \<and> s2 = s1 \<or> insert_assocs s1 newA = Inr s2) \<and>
         s' = (if ids = [] then s2 else update_counts s2 ids (now_updated e)))"
  using assms
  by (auto simp: associate_trans_def andThen_def query_def Let_def missingTagsRaw_def uniq_eq_Nil
      split: if_splits sum.splits)

lemma update_counts_tables:
  "tags_table (update_counts s ids u) = map (bump ids u) (tags_table s)"
  "tags_associations (update_counts s ids u) = tags_associations s"
  by (simp_all add: update_counts_def bump_def)

lemma update_counts_Nil: "update_counts s [] u = s"
  by (simp add: update_counts_def)

lemma createdTags_Nil:
  "missingTagsRaw s tokens tags ns = [] \<Longrightarrow> createdTags e s tokens tags ns = []"
  by (simp add: createdTags_def)

lemma associate_trans_Inr:
  assumes "associate_trans e tokens tags ns s = Inr s'"
  shows "tags_table s' =
           map (bump (countedIds e s tokens tags ns) (now_updated e))
             (tags_table s @ createdTags e s tokens tags ns) \<and>
         tags_associations s' = tags_associations s @ insertedAssocs e s tokens tags ns"
proof -
  let ?missing = "missingTagsRaw s tokens tags ns"
  from associate_trans_steps [OF assms] obtain s1 s2 where
    ins: "?missing = [] \<and> s1 = s \<or>
      insert_tags s (map (\<lambda>t. (t, ns, now_created e, now_created e)) ?missing) = Inr s1"
    and rest: "let fetched = existingTags s tokens tags ns @
            (if ?missing = [] then [] else select_tags s1 ?missing ns);
          newA = missingAssocs (select_assocs s1 (map fst fetched)) (associations tags fetched);
          ids = uniq (map tag_id1 newA @ map tag_id2 newA)
      in (newA = [] \<and> s2 = s1 \<or> insert_assocs s1 newA = Inr s2) \<and>
         s' = (if ids = [] then s2 else update_counts s2 ids (now_updated e))"
    by blast
  from ins have t1: "tags_table s1 = tags_table s @ createdTags e s tokens tags ns"
    and a1: "tags_associations s1 = tags_associations s"
    by (auto simp: createdTags_Nil dest: insert_tags_Inr simp: createdTags_def)
  have fetched: "existingTags s tokens tags ns @
      (if ?missing = [] then [] else select_tags s1 ?missing ns) = fetchedTags e s tokens tags ns"
    by (simp add: fetchedTags_def createdTags_Nil select_missing [OF t1])
  have sel: "\<And>ids. select_assocs s1 ids = select_assocs s ids"
    by (simp add: select_assocs_def a1)
  from rest have
    i2: "insertedAssocs e s tokens tags ns = [] \<and> s2 = s1 \<or>
         insert_assocs s1 (insertedAssocs e s tokens tags ns) = Inr s2"
    and fin: "s' = (if countedIds e s tokens tags ns = [] then s2
                    else update_counts s2 (countedIds e s tokens tags ns) (now_updated e))"
    unfolding fetched sel Let_def insertedAssocs_def [symmetric] countedIds_def [symmetric]
    by simp_all
  from i2 have s2: "s2 = s1\<lparr>tags_associations :=
      tags_associations s1 @ insertedAssocs e s tokens tags ns\<rparr>"
    by (auto dest: insert_assocs_Inr)
  from fin have "s' = update_counts s2 (countedIds e s tokens tags ns) (now_updated e)"
    by (simp add: update_counts_Nil)
  then show ?thesis
    by (simp add: update_counts_tables s2 t1 a1)
qed

lemma associate_trans_noop:
  assumes "associate_trans e tokens tags ns s = Inr s'"
    and "missingTagsRaw s tokens tags ns = []"
    and "insertedAssocs e s tokens tags ns = []"
  shows "s' = s"
proof -
  let ?missing = "missingTagsRaw s tokens tags ns"
  from associate_trans_steps [OF assms(1)] obtain s1 s2 where
    ins: "?missing = [] \<and> s1 = s \<or>
      insert_tags s (map (\<lambda>t. (t, ns, now_created e, now_created e)) ?missing) = Inr s1"
    and rest: "let fetched = existingTags s tokens tags ns @
            (if ?missing = [] then [] else select_tags s1 ?missing ns);
          newA = missingAssocs (select_assocs s1 (map fst fetched)) (associations tags fetched);
          ids = uniq (map tag_id1 newA @ map tag_id2 newA)
      in (newA = [] \<and> s2 = s1 \<or> insert_assocs s1 newA = Inr s2) \<and>
         s' = (if ids = [] then s2 else update_counts s2 ids (now_updated e))"
    by blast
  from ins assms(2) have s1: "s1 = s" by auto
  have "fetchedTags e s tokens tags ns = existingTags s tokens tags ns"
    by (simp add: fetchedTags_def createdTags_Nil assms(2))
  with assms(3) have "missingAssocs (select_assocs s (map fst (existingTags s tokens tags ns)))
      (associations tags (existingTags s tokens tags ns)) = []"
    by (simp add: insertedAssocs_def)
  with rest show ?thesis
    by (auto simp: Let_def s1 assms(2) uniq_eq_Nil)
qed

lemma associate_Fulfilled:
  "fst (associate e t tokens tags ns) = Some (Fulfilled ()) \<Longrightarrow>
   associate_trans e tokens tags (nsOrDefault ns) (db t) =
     Inr (db (snd (associate e t tokens tags ns)))"
  by (auto simp: associate_def Let_def holdOperation_def createSchema_def transaction_def
      split: if_splits sum.splits prod.splits)

lemma associate_unfulfilled:
  "fst (associate e t tokens tags ns) \<noteq> Some (Fulfilled ()) \<Longrightarrow>
   db (snd (associate e t tokens tags ns)) = db t"
  by (auto simp: associate_def Let_def holdOperation_def createSchema_def transaction_def
      split: if_splits sum.splits prod.splits)

lemma bump_fields:
  "row_id (bump ids u r) = row_id r"
  "row_text (bump ids u r) = row_text r"
  "row_namespace (bump ids u r) = row_namespace r"
  "row_count (bump ids u r) = row_count r + (if row_id r \<in> set ids then 1 else 0)"
  by (simp_all add: bump_def)

lemma select_tags_bump:
  "tags_table s' = map (bump ids u) rows \<Longrightarrow>
   select_tags s' texts ns =
     map (\<lambda>r. (row_id r, row_text r))
       (filter (\<lambda>r. row_text r \<in> set texts \<and> row_namespace r = ns) rows)"
  by (simp add: select_tags_def filter_map comp_def bump_fields)

lemma set_missingTagsRaw:
  "set (missingTagsRaw s tokens tags ns) =
     set (allTags tokens tags) - set (map snd (existingTags s tokens tags ns))"
  using set_existing_texts [of s tokens tags ns]
  by (auto simp: missingTagsRaw_def set_xor_arrays)

lemma xor_arrays_Nil: "set xs = set ys \<Longrightarrow> xor_arrays xs ys = []"
  by (simp add: xor_arrays_def uniq_eq_Nil difference_def filter_empty_conv)

lemma set_fetched_texts:
  "set (map snd (fetchedTags e s tokens tags ns)) = set (allTags tokens tags)"
proof -
  have "map snd (map (\<lambda>r. (row_id r, row_text r)) (createdTags e s tokens tags ns)) =
      missingTagsRaw s tokens tags ns"
    by (simp add: comp_def createdTags_def created_rows_text)
  then have "set (map snd (fetchedTags e s tokens tags ns)) =
      set (map snd (existingTags s tokens tags ns)) \<union> set (missingTagsRaw s tokens tags ns)"
    unfolding fetchedTags_def by (simp only: map_append set_append)
  with set_existing_texts [of s tokens tags ns] show ?thesis
    by (auto simp: set_missingTagsRaw)
qed

lemma existingTags_after:
  assumes "tags_table s' = map (bump ids u) (tags_table s @ createdTags e s tokens tags ns)"
  shows "existingTags s' tokens tags ns = fetchedTags e s tokens tags ns"
proof -
  have "set (missingTagsRaw s tokens tags ns) \<subseteq> set (allTags tokens tags)"
    by (auto simp: set_missingTagsRaw)
  then have "filter (\<lambda>r. row_text r \<in> set (allTags tokens tags) \<and> row_namespace r = ns)
      (createdTags e s tokens tags ns) = createdTags e s tokens tags ns"
    unfolding createdTags_def by (rule select_created)
  moreover have "existingTags s' tokens tags ns =
      map (\<lambda>r. (row_id r, row_text r))
        (filter (\<lambda>r. row_text r \<in> set (allTags tokens tags) \<and> row_namespace r = ns)
           (tags_table s @ createdTags e s tokens tags ns))"
    unfolding existingTags_def by (rule select_tags_bump [OF assms])
  ultimately show ?thesis
    by (simp add: fetchedTags_def existingTags_def select_tags_def)
qed

lemma associations_ids:
  "a \<in> set (associations tags fetched) \<Longrightarrow>
   tag_id1 a \<in> set (tagIds tags fetched) \<and> tag_id2 a \<in> set (tokenIds tags fetched)"
  by (auto simp: associations_def)

lemma tagIds_subset: "set (tagIds tags fetched) \<subseteq> set (map fst fetched)"
  by (auto simp: tagIds_def)

lemma tokenIds_subset: "set (tokenIds tags fetched) \<subseteq> set (map fst fetched)"
  by (auto simp: tokenIds_def)

lemma equalArrays_refl: "equalArrays xs xs"
  by (simp add: equalArrays_def)

lemma missingAssocs_covered:
  assumes "\<forall>a\<in>set cands. tag_id1 a \<in> set ids"
    and "set (missingAssocs (select_assocs s ids) cands) \<subseteq> set (tags_associations s')"
    and "set (tags_associations s) \<subseteq> set (tags_associations s')"
  shows "missingAssocs (select_assocs s' ids) cands = []"
proof -
  have "list_ex (\<lambda>ex. equalArrays (values_of a) (values_of ex)) (select_assocs s' ids)"
    if a: "a \<in> set cands" for a
  proof (cases "list_ex (\<lambda>ex. equalArrays (values_of a) (values_of ex)) (select_assocs s ids)")
    case True
    with assms(3) show ?thesis
      by (auto simp: list_ex_iff select_assocs_def)
  next
    case False
    with a have "a \<in> set (missingAssocs (select_assocs s ids) cands)"
      by (simp add: missingAssocs_def)
    with assms(2) have "a \<in> set (tags_associations s')" by auto
    with a assms(1) have "a \<in> set (select_assocs s' ids)"
      by (simp add: select_assocs_def)
    then show ?thesis
      using equalArrays_refl by (auto simp: list_ex_iff)
  qed
  then show ?thesis
    by (simp add: missingAssocs_def filter_empty_conv)
qed

lemma nothing_missing_after:
  assumes "associate_trans e tokens tags ns s = Inr s'"
  shows "missingTagsRaw s' tokens tags ns = [] \<and> insertedAssocs e' s' tokens tags ns = []"
proof -
  from associate_trans_Inr [OF assms]
  have tt: "tags_table s' = map (bump (countedIds e s tokens tags ns) (now_updated e))
        (tags_table s @ createdTags e s tokens tags ns)"
    and ta: "tags_associations s' = tags_associations s @ insertedAssocs e s tokens tags ns"
    by simp_all
  have ex: "existingTags s' tokens tags ns = fetchedTags e s tokens tags ns"
    using tt by (rule existingTags_after)
  have "set (allTags tokens tags) = set (map snd (existingTags s' tokens tags ns))"
    unfolding ex by (simp only: set_fetched_texts)
  then have miss: "missingTagsRaw s' tokens tags ns = []"
    unfolding missingTagsRaw_def by (rule xor_arrays_Nil)
  then have fe: "fetchedTags e' s' tokens tags ns = fetchedTags e s tokens tags ns"
    by (simp add: fetchedTags_def createdTags_Nil ex)
  let ?f = "fetchedTags e s tokens tags ns"
  have "\<forall>a\<in>set (associations tags ?f). tag_id1 a \<in> set (map fst ?f)"
    using associations_ids tagIds_subset by blast
  moreover have "set (missingAssocs (select_assocs s (map fst ?f)) (associations tags ?f))
      \<subseteq> set (tags_associations s')"
    by (simp add: ta insertedAssocs_def)
  moreover have "set (tags_associations s) \<subseteq> set (tags_associations s')"
    by (simp add: ta)
  ultimately have "missingAssocs (select_assocs s' (map fst ?f)) (associations tags ?f) = []"
    by (rule missingAssocs_covered)
  then have "insertedAssocs e' s' tokens tags ns = []"
    by (simp add: insertedAssocs_def fe)
  with miss show ?thesis by simp
qed

lemma associate_trans_again:
  assumes "associate_trans e tokens tags ns s = Inr s'"
    and "associate_trans e' tokens tags ns s' = Inr s''"
  shows "s'' = s'"
  using assms(2) nothing_missing_after [OF assms(1), of e']
  by (auto intro: associate_trans_noop)

section \<open>Rollback\<close>

lemma associate_trans_faults:
  assumes "associate_trans e tokens tags ns s = Inr s'"
  shows "\<exists>s1.
     \<not> failing e FetchExisting \<and> \<not> failing e FetchAssocs \<and>
     (missingTagsRaw s tokens tags ns = [] \<and> s1 = s \<or>
      \<not> failing e InsertTags \<and> \<not> failing e FetchMissing \<and>
      insert_tags s (map (\<lambda>t. (t, ns, now_created e, now_created e))
        (missingTagsRaw s tokens tags ns)) = Inr s1) \<and>
     (let fetched = existingTags s tokens tags ns @
            (if missingTagsRaw s tokens tags ns = [] then []
             else select_tags s1 (missingTagsRaw s tokens tags ns) ns);
          newA = missingAssocs (select_assocs s1 (map fst fetched)) (associations tags fetched)
      in newA = [] \<or> \<not> failing e InsertAssocs \<and> \<not> failing e UpdateCounts)"
  using assms
  by (auto simp: associate_trans_def andThen_def query_def Let_def missingTagsRaw_def uniq_eq_Nil
      split: if_splits sum.splits)

lemma fulfilled_no_fault:
  assumes "associate_trans e tokens tags ns s = Inr s'" and "issued e s tokens tags ns k"
  shows "\<not> failing e k"
proof -
  let ?missing = "missingTagsRaw s tokens tags ns"
  from associate_trans_faults [OF assms(1)] obtain s1 where
    a: "\<not> failing e FetchExisting" "\<not> failing e FetchAssocs"
    and ins: "?missing = [] \<and> s1 = s \<or>
      \<not> failing e InsertTags \<and> \<not> failing e FetchMissing \<and>
      insert_tags s (map (\<lambda>t. (t, ns, now_created e, now_created e)) ?missing) = Inr s1"
    and rest: "let fetched = existingTags s tokens tags ns @
            (if ?missing = [] then [] else select_tags s1 ?missing ns);
          newA = missingAssocs (select_assocs s1 (map fst fetched)) (associations tags fetched)
      in newA = [] \<or> \<not> failing e InsertAssocs \<and> \<not> failing e UpdateCounts"
    by blast
  from ins have t1: "tags_table s1 = tags_table s @ createdTags e s tokens tags ns"
    and a1: "tags_associations s1 = tags_associations s"
    by (auto simp: createdTags_Nil dest: insert_tags_Inr simp: createdTags_def)
  have fetched: "existingTags s tokens tags ns @
      (if ?missing = [] then [] else select_tags s1 ?missing ns) = fetchedTags e s tokens tags ns"
    by (simp add: fetchedTags_def createdTags_Nil select_missing [OF t1])
  have sel: "\<And>ids. select_assocs s1 ids = select_assocs s ids"
    by (simp add: select_assocs_def a1)
  from rest have b: "insertedAssocs e s tokens tags ns = [] \<or>
      \<not> failing e InsertAssocs \<and> \<not> failing e UpdateCounts"
    unfolding fetched sel Let_def insertedAssocs_def [symmetric] .
  from ins have c: "?missing = [] \<or> \<not> failing e InsertTags \<and> \<not> failing e FetchMissing"
    by blast
  from assms(2) a b c show ?thesis
    by (cases k) (auto simp: issued_def)
qed

lemma associate_Some:
  "tokens \<noteq> [] \<Longrightarrow> tags \<noteq> [] \<Longrightarrow> \<exists>p. fst (associate e t tokens tags ns) = Some p"
  by (simp add: associate_def Let_def split: prod.splits)

text \<open>
  Claim C5. Whenever a call of \<^verbatim>\<open>associate\<close> does not end in a fulfilled promise, the
  store is exactly the store from before the call: no label, no association and no
  counter update of the failed call remains. And whenever a query the transaction issues
  is rejected by the storage layer, at any step and after any number of writes inside the
  transaction, the promise is rejected and the store is the store from before the call.
\<close>

theorem associate_rollback:
  "(fst (associate e t tokens tags ns) \<noteq> Some (Fulfilled ()) \<longrightarrow>
      db (snd (associate e t tokens tags ns)) = db t) \<and>
   (tokens \<noteq> [] \<and> tags \<noteq> [] \<and> failing e k \<and>
    issued e (db t) tokens tags (nsOrDefault ns) k \<longrightarrow>
      (\<exists>err. fst (associate e t tokens tags ns) = Some (Rejected err)) \<and>
      db (snd (associate e t tokens tags ns)) = db t)"
proof (intro conjI impI)
  assume "fst (associate e t tokens tags ns) \<noteq> Some (Fulfilled ())"
  then show "db (snd (associate e t tokens tags ns)) = db t"
    by (rule associate_unfulfilled)
next
  assume h: "tokens \<noteq> [] \<and> tags \<noteq> [] \<and> failing e k \<and>
    issued e (db t) tokens tags (nsOrDefault ns) k"
  have nf: "fst (associate e t tokens tags ns) \<noteq> Some (Fulfilled ())"
  proof
    assume "fst (associate e t tokens tags ns) = Some (Fulfilled ())"
    from fulfilled_no_fault [OF associate_Fulfilled [OF this]] h show False by blast
  qed
  from h obtain p where p: "fst (associate e t tokens tags ns) = Some p"
    using associate_Some by blast
  with nf show "\<exists>err. fst (associate e t tokens tags ns) = Some (Rejected err)"
    by (cases p) auto
  from nf show "db (snd (associate e t tokens tags ns)) = db t"
    by (rule associate_unfulfilled)
qed

theorem associate_rollback_witness:
  "fst (associate (failing_at UpdateCounts) peter_store [''john''] [''hello'', ''yes''] None)
     = Some (Rejected (ConnectivityError UpdateCounts)) \<and>
   db (snd (associate (failing_at UpdateCounts) peter_store [''john''] [''hello'', ''yes''] None))
     = db peter_store"
proof -
  have i: "issued (failing_at UpdateCounts) (db peter_store) [''john''] [''hello'', ''yes'']
      (nsOrDefault None) UpdateCounts"
    by (simp add: issued_def insertedAssocs_def fetchedTags_def createdTags_def
        missingTagsRaw_def associate_eval)
  have f: "failing (failing_at UpdateCounts) UpdateCounts"
    by (simp add: failing_at_def)
  have r: "fst (associate (failing_at UpdateCounts) peter_store [''john''] [''hello'', ''yes''] None)
     = Some (Rejected (ConnectivityError UpdateCounts))"
    by (simp add: associate_eval)
  from associate_rollback [of "failing_at UpdateCounts" peter_store "[''john'']"
      "[''hello'', ''yes'']" None UpdateCounts, THEN conjunct2] i f
  have "db (snd (associate (failing_at UpdateCounts) peter_store [''john''] [''hello'', ''yes''] None))
     = db peter_store"
    by simp
  with r show ?thesis by simp
qed

section \<open>Idempotence\<close>

lemma associate_twice:
  assumes "fst (associate e t tokens tags ns) = Some (Fulfilled ())"
  shows "db (snd (associate e' (snd (associate e t tokens tags ns)) tokens tags ns)) =
         db (snd (associate e t tokens tags ns))"
proof (cases "fst (associate e' (snd (associate e t tokens tags ns)) tokens tags ns)
    = Some (Fulfilled ())")
  case True
  from associate_Fulfilled [OF assms] associate_Fulfilled [OF True]
  show ?thesis by (rule associate_trans_again)
next
  case False
  then show ?thesis by (rule associate_unfulfilled)
qed

text \<open>
  Claim C9. After a fulfilled call of \<^verbatim>\<open>associate\<close>, the same call again (at any later
  clock reading, and whether or not a query of it fails) leaves the whole store as the
  first call left it: no row is inserted, and no count or timestamp of a label changes.
  In the second call no text and no association row is missing, so neither of the two
  inserts nor the counter update is issued.
\<close>

theorem associate_idempotent:
  assumes "fst (associate e t tokens tags ns) = Some (Fulfilled ())"
  shows "db (snd (associate e' (snd (associate e t tokens tags ns)) tokens tags ns)) =
           db (snd (associate e t tokens tags ns)) \<and>
         \<not> issued e' (db (snd (associate e t tokens tags ns))) tokens tags (nsOrDefault ns)
             InsertTags \<and>
         \<not> issued e' (db (snd (associate e t tokens tags ns))) tokens tags (nsOrDefault ns)
             InsertAssocs \<and>
         \<not> issued e' (db (snd (associate e t tokens tags ns))) tokens tags (nsOrDefault ns)
             UpdateCounts"
  using associate_twice [OF assms, of e']
    nothing_missing_after [OF associate_Fulfilled [OF assms], of e']
  by (simp add: issued_def)

theorem associate_idempotent_witness:
  "db (snd (associate (failing_at InsertAssocs)
        (snd (associate reliable fresh [''john''] [''hello''] None))
        [''john''] [''hello''] None)) =
   \<lparr>tags_table =
      [\<lparr>row_id = 1, row_text = ''john'', row_namespace = ''public'', row_count = 1,
        created_at = Some 1, updated_at = Some 2\<rparr>,
       \<lparr>row_id = 2, row_text = ''hello'', row_namespace = ''public'', row_count = 1,
        created_at = Some 1, updated_at = Some 2\<rparr>],
    tags_associations = [\<lparr>tag_id1 = 2, tag_id2 = 1\<rparr>], seq = 2\<rparr>"
proof -
  have f: "fst (associate reliable fresh [''john''] [''hello''] None) = Some (Fulfilled ())"
    by (simp add: associate_eval)
  have s: "db (snd (associate reliable fresh [''john''] [''hello''] None)) =
   \<lparr>tags_table =
      [\<lparr>row_id = 1, row_text = ''john'', row_namespace = ''public'', row_count = 1,
        created_at = Some 1, updated_at = Some 2\<rparr>,
       \<lparr>row_id = 2, row_text = ''hello'', row_namespace = ''public'', row_count = 1,
        created_at = Some 1, updated_at = Some 2\<rparr>],
    tags_associations = [\<lparr>tag_id1 = 2, tag_id2 = 1\<rparr>], seq = 2\<rparr>"
    by (simp add: associate_eval)
  from associate_idempotent [OF f, of "failing_at InsertAssocs", THEN conjunct1] s
  show ?thesis by (rule trans)
qed

section \<open>Counters\<close>

lemma insertedAssocs_new:
  assumes "a \<in> set (insertedAssocs e s tokens tags ns)"
  shows "a \<notin> set (tags_associations s)"
proof
  assume old: "a \<in> set (tags_associations s)"
  let ?f = "fetchedTags e s tokens tags ns"
  from assms have c: "a \<in> set (associations tags ?f)"
    and n: "\<not> list_ex (\<lambda>ex. equalArrays (values_of a) (values_of ex))
               (select_assocs s (map fst ?f))"
    by (simp_all add: insertedAssocs_def missingAssocs_def)
  from c have "tag_id1 a \<in> set (map fst ?f)"
    using associations_ids tagIds_subset by blast
  with old have "a \<in> set (select_assocs s (map fst ?f))"
    by (simp add: select_assocs_def)
  with n show False
    using equalArrays_refl by (auto simp: list_ex_iff)
qed

lemma gained_after:
  assumes "tags_associations s' = tags_associations s @ insertedAssocs e s tokens tags ns"
  shows "gained s s' i =
     length (filter (\<lambda>a. tag_id1 a = i \<or> tag_id2 a = i) (insertedAssocs e s tokens tags ns))"
proof -
  have "filter (\<lambda>a. a \<notin> set (tags_associations s) \<and> (tag_id1 a = i \<or> tag_id2 a = i))
          (insertedAssocs e s tokens tags ns) =
        filter (\<lambda>a. tag_id1 a = i \<or> tag_id2 a = i) (insertedAssocs e s tokens tags ns)"
    using insertedAssocs_new by (intro filter_cong) auto
  then show ?thesis
    by (simp add: gained_def assms)
qed

lemma gained_zero_iff:
  assumes "tags_associations s' = tags_associations s @ insertedAssocs e s tokens tags ns"
  shows "gained s s' i = 0 \<longleftrightarrow> i \<notin> set (countedIds e s tokens tags ns)"
  unfolding gained_after [OF assms] countedIds_def
  by (auto simp: set_uniq filter_empty_conv)

lemma fetched_ids_rows:
  "set (map fst (fetchedTags e s tokens tags ns)) \<subseteq>
     row_id ` set (tags_table s @ createdTags e s tokens tags ns)"
  by (auto simp: fetchedTags_def existingTags_def select_tags_def)

lemma countedIds_rows:
  "set (countedIds e s tokens tags ns) \<subseteq>
     row_id ` set (tags_table s @ createdTags e s tokens tags ns)"
proof
  fix i assume "i \<in> set (countedIds e s tokens tags ns)"
  then obtain a where a: "a \<in> set (insertedAssocs e s tokens tags ns)"
    and i: "i = tag_id1 a \<or> i = tag_id2 a"
    by (auto simp: countedIds_def set_uniq)
  from a have "a \<in> set (associations tags (fetchedTags e s tokens tags ns))"
    by (simp add: insertedAssocs_def missingAssocs_def)
  with i have "i \<in> set (map fst (fetchedTags e s tokens tags ns))"
    using associations_ids tagIds_subset tokenIds_subset by blast
  with fetched_ids_rows show "i \<in> row_id ` set (tags_table s @ createdTags e s tokens tags ns)"
    by blast
qed

lemma find_bump:
  "find (\<lambda>r. row_id r = i) (map (bump ids u) rows) =
     map_option (bump ids u) (find (\<lambda>r. row_id r = i) rows)"
  by (induction rows) (auto simp: bump_fields)

lemma find_app:
  "find P (xs @ ys) = (case find P xs of None \<Rightarrow> find P ys | Some x \<Rightarrow> Some x)"
  by (induction xs) auto

lemma count_of_after:
  assumes "tags_table s' = map (bump ids u) (tags_table s @ created)"
    and "\<forall>r\<in>set created. row_count r = 0"
    and "set ids \<subseteq> row_id ` set (tags_table s @ created)"
  shows "count_of s' i = count_of s i + (if i \<in> set ids then 1 else 0)"
proof (cases "find (\<lambda>r. row_id r = i) (tags_table s)")
  case (Some r)
  then have "row_id r = i" by (auto simp: find_Some_iff)
  with Some show ?thesis
    by (simp add: count_of_def assms(1) find_bump find_app bump_fields)
next
  case None
  show ?thesis
  proof (cases "find (\<lambda>r. row_id r = i) created")
    case (Some r)
    then have "row_id r = i" "r \<in> set created"
      by (auto simp: find_Some_iff)
    with Some None assms(2) show ?thesis
      by (simp add: count_of_def assms(1) find_bump find_app bump_fields)
  next
    case N2: None
    from None N2 have "i \<notin> row_id ` set (tags_table s @ created)"
      by (auto simp: find_None_iff)
    with assms(3) have "i \<notin> set ids" by auto
    with None N2 show ?thesis
      by (simp add: count_of_def assms(1) find_bump find_app)
  qed
qed

text \<open>
  Claim C1, as amended. After a fulfilled call of \<^verbatim>\<open>associate\<close>, the count of every
  label that gained at least one new association row in the call is larger by exactly one
  (however many rows it gained; a label created by the call starts from 0), and the count
  of every other label is unchanged.
\<close>

theorem count_bumped_once:
  assumes "fst (associate e t tokens tags ns) = Some (Fulfilled ())"
  shows "count_of (db (snd (associate e t tokens tags ns))) i =
         count_of (db t) i +
           (if gained (db t) (db (snd (associate e t tokens tags ns))) i = 0 then 0 else 1)"
proof -
  let ?s = "db t" and ?s' = "db (snd (associate e t tokens tags ns))"
  let ?n = "nsOrDefault ns"
  from associate_trans_Inr [OF associate_Fulfilled [OF assms]]
  have tt: "tags_table ?s' = map (bump (countedIds e ?s tokens tags ?n) (now_updated e))
        (tags_table ?s @ createdTags e ?s tokens tags ?n)"
    and ta: "tags_associations ?s' = tags_associations ?s @ insertedAssocs e ?s tokens tags ?n"
    by simp_all
  have "\<forall>r\<in>set (createdTags e ?s tokens tags ?n). row_count r = 0"
    by (auto simp: createdTags_def dest: created_rows_props)
  with tt have "count_of ?s' i = count_of ?s i +
      (if i \<in> set (countedIds e ?s tokens tags ?n) then 1 else 0)"
    using countedIds_rows by (rule count_of_after)
  then show ?thesis
    by (simp add: gained_zero_iff [OF ta])
qed

theorem count_bumped_once_witness:
  "count_of (db (snd (associate reliable peter_store [''what''] [''peter'', ''new''] None))) 1 = 2 \<and>
   count_of (db (snd (associate reliable peter_store [''what''] [''peter'', ''new''] None))) 3 = 1 \<and>
   count_of (db (snd (associate reliable peter_store [''what''] [''peter'', ''new''] None))) 5 = 1"
proof -
  have f: "fst (associate reliable peter_store [''what''] [''peter'', ''new''] None) = Some (Fulfilled ())"
    by (simp add: associate_eval)
  have s: "db (snd (associate reliable peter_store [''what''] [''peter'', ''new''] None)) =
    \<lparr>tags_table = [label 1 ''what'' ''public'' 2 \<lparr>updated_at := Some 2\<rparr>, label 2 ''yes'' ''public'' 1,
                           label 3 ''peter'' ''public'' 1, label 4 ''peter'' ''private'' 0,
                   \<lparr>row_id = 5, row_text = ''new'', row_namespace = ''public'', row_count = 1,
                     created_at = Some 1, updated_at = Some 2\<rparr>],
            tags_associations = [\<lparr>tag_id1 = 3, tag_id2 = 1\<rparr>, \<lparr>tag_id1 = 2, tag_id2 = 3\<rparr>,
               \<lparr>tag_id1 = 5, tag_id2 = 1\<rparr>],
            seq = 5\<rparr>"
    by (simp add: associate_eval)
  show ?thesis
    using count_bumped_once [OF f, of 1] count_bumped_once [OF f, of 3] count_bumped_once [OF f, of 5]
    unfolding s by (simp add: count_of_def gained_def peter_store_def label_def)
qed

text \<open>
  The claim as stated, an increase by the number of new rows, fails on the empty store for
  \<^verbatim>\<open>associate(['john'], ['hello', 'yes'])\<close>: the label \<^verbatim>\<open>john\<close> (id 1) gains two rows
  and its count goes from 0 to 1.
\<close>

theorem count_per_edge_counterexample:
  "fst (associate reliable fresh [''john''] [''hello'', ''yes''] None) = Some (Fulfilled ()) \<and>
   gained (db fresh) (db (snd (associate reliable fresh [''john''] [''hello'', ''yes''] None))) 1 = 2 \<and>
   count_of (db fresh) 1 = 0 \<and>
   count_of (db (snd (associate reliable fresh [''john''] [''hello'', ''yes''] None))) 1 = 1"
  by (simp add: associate_eval count_of_def gained_def)

section \<open>Consistency of the store\<close>

lemma canon_eq_iff:
  "canon a = canon b \<longleftrightarrow>
   tag_id1 a = tag_id1 b \<and> tag_id2 a = tag_id2 b \<or>
   tag_id1 a = tag_id2 b \<and> tag_id2 a = tag_id1 b"
  by (auto simp: canon_def min_def max_def split: if_splits)

lemma equalArrays_canon:
  "equalArrays (values_of a) (values_of b) \<longleftrightarrow> canon a = canon b"
  by (auto simp: equalArrays_def values_of_def canon_eq_iff)

lemma created_ids_distinct: "distinct (map row_id (createdTags e s tokens tags ns))"
  by (simp add: createdTags_def created_rows_ids)

lemma created_ids_fresh:
  "r \<in> set (tags_table s) \<Longrightarrow> c \<in> set (createdTags e s tokens tags ns) \<Longrightarrow>
   row_id r \<noteq> row_id c"
  using next_id_fresh [of r s] created_rows_id_ge [of c "next_id s"]
  by (fastforce simp: createdTags_def)

lemma distinct_ids_after:
  "distinct (map row_id (tags_table s)) \<Longrightarrow>
   distinct (map row_id (tags_table s @ createdTags e s tokens tags ns))"
  using created_ids_fresh [of _ s _ e tokens tags ns]
  by (auto simp: created_ids_distinct)

lemma created_keys:
  "map (\<lambda>r. (row_text r, row_namespace r)) (created_rows i ns c ts) = map (\<lambda>t. (t, ns)) ts"
  by (induction ts arbitrary: i) auto

lemma distinct_keys_after:
  assumes "distinct (map (\<lambda>r. (row_text r, row_namespace r)) (tags_table s))"
  shows "distinct (map (\<lambda>r. (row_text r, row_namespace r))
           (tags_table s @ createdTags e s tokens tags ns))"
proof -
  have "distinct (map (\<lambda>t. (t, ns)) (missingTagsRaw s tokens tags ns))"
    by (simp add: distinct_map missingTagsRaw_def distinct_xor_arrays inj_on_def)
  moreover have "(row_text r, row_namespace r) \<noteq> (t, ns)"
    if "r \<in> set (tags_table s)" "t \<in> set (missingTagsRaw s tokens tags ns)" for r t
    using missing_no_row [of r s ns tokens tags] that by auto
  ultimately show ?thesis
    using assms by (auto simp: createdTags_def created_keys)
qed

lemma distinct_fetched_ids:
  assumes "distinct (map row_id (tags_table s))"
  shows "distinct (map fst (fetchedTags e s tokens tags ns))"
proof -
  let ?P = "\<lambda>r. row_text r \<in> set (allTags tokens tags) \<and> row_namespace r = ns"
  have "map fst (fetchedTags e s tokens tags ns) =
      map row_id (filter ?P (tags_table s)) @ map row_id (createdTags e s tokens tags ns)"
    by (simp add: fetchedTags_def existingTags_def select_tags_def comp_def)
  moreover have "distinct (map row_id (filter ?P (tags_table s)))"
    using assms by (rule distinct_map_filter)
  moreover have "set (map row_id (filter ?P (tags_table s))) \<inter>
      set (map row_id (createdTags e s tokens tags ns)) = {}"
    using created_ids_fresh [of _ s _ e tokens tags ns] by auto
  ultimately show ?thesis
    by (simp add: created_ids_distinct)
qed

lemma partition_distinct:
  assumes "distinct (map fst fetched)"
  shows "distinct (tagIds tags fetched)" and "distinct (tokenIds tags fetched)"
    and "set (tagIds tags fetched) \<inter> set (tokenIds tags fetched) = {}"
proof -
  show "distinct (tagIds tags fetched)" "distinct (tokenIds tags fetched)"
    unfolding tagIds_def tokenIds_def using assms by (rule distinct_map_filter)+
  from assms have "inj_on fst (set fetched)" by (simp add: distinct_map)
  then show "set (tagIds tags fetched) \<inter> set (tokenIds tags fetched) = {}"
    unfolding tagIds_def tokenIds_def by (auto dest: inj_onD)
qed

lemma set_associations:
  "set (associations tags fetched) =
     {\<lparr>tag_id1 = i, tag_id2 = j\<rparr> |i j. i \<in> set (tagIds tags fetched) \<and> j \<in> set (tokenIds tags fetched)}"
  by (auto simp: associations_def)

lemma distinct_associations:
  assumes "distinct (map fst fetched)"
  shows "distinct (associations tags fetched)"
proof -
  have "associations tags fetched =
      map (\<lambda>(i, j). \<lparr>tag_id1 = i, tag_id2 = j\<rparr>)
        (List.product (tagIds tags fetched) (tokenIds tags fetched))"
    by (simp add: associations_def product_concat_map map_concat comp_def)
  moreover have "distinct (List.product (tagIds tags fetched) (tokenIds tags fetched))"
    using partition_distinct(1,2) [OF assms] by (rule distinct_product)
  moreover have "inj (\<lambda>(i, j). \<lparr>tag_id1 = i, tag_id2 = j :: nat\<rparr>)"
    by (auto simp: inj_on_def)
  ultimately show ?thesis
    by (simp add: distinct_map inj_on_def)
qed

lemma canon_inj_associations:
  assumes "distinct (map fst fetched)"
  shows "inj_on canon (set (associations tags fetched))"
proof (rule inj_onI)
  fix a b
  assume a: "a \<in> set (associations tags fetched)" and b: "b \<in> set (associations tags fetched)"
    and c: "canon a = canon b"
  from a b have ids: "tag_id1 a \<in> set (tagIds tags fetched)" "tag_id2 a \<in> set (tokenIds tags fetched)"
    "tag_id1 b \<in> set (tagIds tags fetched)" "tag_id2 b \<in> set (tokenIds tags fetched)"
    by (auto dest: associations_ids)
  with partition_distinct(3) [OF assms, of tags] have "tag_id1 a \<noteq> tag_id2 b" by auto
  with c have "tag_id1 a = tag_id1 b \<and> tag_id2 a = tag_id2 b"
    by (auto simp: canon_eq_iff)
  then show "a = b" by simp
qed

lemma no_self_loop:
  assumes "distinct (map fst fetched)" and "a \<in> set (associations tags fetched)"
  shows "tag_id1 a \<noteq> tag_id2 a"
  using associations_ids [OF assms(2)] partition_distinct(3) [OF assms(1), of tags] by auto

lemma insertedAssocs_subset:
  "set (insertedAssocs e s tokens tags ns) \<subseteq>
     set (associations tags (fetchedTags e s tokens tags ns))"
  by (auto simp: insertedAssocs_def missingAssocs_def)

lemma insertedAssocs_canon_new:
  assumes "a \<in> set (insertedAssocs e s tokens tags ns)" and "ex \<in> set (tags_associations s)"
  shows "canon ex \<noteq> canon a"
proof
  assume c: "canon ex = canon a"
  let ?f = "fetchedTags e s tokens tags ns"
  from assms(1) have cand: "a \<in> set (associations tags ?f)"
    and n: "\<not> list_ex (\<lambda>ex. equalArrays (values_of a) (values_of ex))
               (select_assocs s (map fst ?f))"
    by (simp_all add: insertedAssocs_def missingAssocs_def)
  from cand have "tag_id1 a \<in> set (map fst ?f)" "tag_id2 a \<in> set (map fst ?f)"
    using associations_ids tagIds_subset tokenIds_subset by blast+
  moreover from c have "tag_id1 ex = tag_id1 a \<or> tag_id1 ex = tag_id2 a"
    by (auto simp: canon_eq_iff)
  ultimately have "tag_id1 ex \<in> set (map fst ?f)"
    by (elim disjE) simp_all
  with assms(2) have "ex \<in> set (select_assocs s (map fst ?f))"
    by (simp add: select_assocs_def)
  with n c show False
    by (auto simp: list_ex_iff equalArrays_canon)
qed

lemma candidate_covered:
  assumes "a \<in> set (associations tags (fetchedTags e s tokens tags ns))"
  shows "\<exists>ex\<in>set (tags_associations s @ insertedAssocs e s tokens tags ns). canon ex = canon a"
proof (cases "a \<in> set (insertedAssocs e s tokens tags ns)")
  case True
  then show ?thesis by auto
next
  case False
  with assms have "list_ex (\<lambda>ex. equalArrays (values_of a) (values_of ex))
      (select_assocs s (map fst (fetchedTags e s tokens tags ns)))"
    by (simp add: insertedAssocs_def missingAssocs_def)
  then show ?thesis
    by (auto simp: list_ex_iff equalArrays_canon select_assocs_def)
qed

lemma distinct_canon_after:
  assumes "distinct (map row_id (tags_table s))"
    and "distinct (map canon (tags_associations s))"
  shows "distinct (map canon (tags_associations s @ insertedAssocs e s tokens tags ns))"
proof -
  let ?f = "fetchedTags e s tokens tags ns"
  have df: "distinct (map fst ?f)"
    using assms(1) by (rule distinct_fetched_ids)
  have "distinct (map canon (associations tags ?f))"
    using distinct_associations [OF df] canon_inj_associations [OF df]
    by (simp add: distinct_map)
  then have "distinct (map canon (insertedAssocs e s tokens tags ns))"
    unfolding insertedAssocs_def missingAssocs_def by (rule distinct_map_filter)
  moreover have "set (map canon (tags_associations s)) \<inter>
      set (map canon (insertedAssocs e s tokens tags ns)) = {}"
    using insertedAssocs_canon_new [of _ e s tokens tags ns] by fastforce
  ultimately show ?thesis
    using assms(2) by (simp only: map_append distinct_append simp_thms)
qed

lemma distinct_assocs_after:
  assumes "distinct (map row_id (tags_table s))"
    and "distinct (tags_associations s)"
  shows "distinct (tags_associations s @ insertedAssocs e s tokens tags ns)"
proof -
  let ?f = "fetchedTags e s tokens tags ns"
  have "distinct (associations tags ?f)"
    using distinct_fetched_ids [OF assms(1)] by (rule distinct_associations)
  then have "distinct (insertedAssocs e s tokens tags ns)"
    by (simp add: insertedAssocs_def missingAssocs_def)
  with assms(2) show ?thesis
    using insertedAssocs_new [of _ e s tokens tags ns] by auto
qed

lemma map_bump_ids: "map row_id (map (bump ids u) rows) = map row_id rows"
  by (simp add: comp_def bump_fields)

lemma map_bump_keys:
  "map (\<lambda>r. (row_text r, row_namespace r)) (map (bump ids u) rows) =
   map (\<lambda>r. (row_text r, row_namespace r)) rows"
  by (simp add: comp_def bump_fields)

lemma schema_ok_trans:
  assumes "associate_trans e tokens tags ns s = Inr s'" and "schema_ok s"
  shows "schema_ok s'"
proof -
  from associate_trans_Inr [OF assms(1)]
  have tt: "tags_table s' = map (bump (countedIds e s tokens tags ns) (now_updated e))
        (tags_table s @ createdTags e s tokens tags ns)"
    and ta: "tags_associations s' = tags_associations s @ insertedAssocs e s tokens tags ns"
    by simp_all
  from assms(2) have d: "distinct (map row_id (tags_table s))"
    "distinct (map (\<lambda>r. (row_text r, row_namespace r)) (tags_table s))"
    "distinct (tags_associations s)"
    by (simp_all add: schema_ok_def)
  show ?thesis
    unfolding schema_ok_def tt ta map_bump_ids map_bump_keys
    using distinct_ids_after [OF d(1)] distinct_keys_after [OF d(2)]
      distinct_assocs_after [OF d(1) d(3)]
    by simp
qed

lemma consistent_trans:
  assumes "associate_trans e tokens tags ns s = Inr s'" and "consistent s"
  shows "consistent s'"
proof -
  from associate_trans_Inr [OF assms(1)]
  have ta: "tags_associations s' = tags_associations s @ insertedAssocs e s tokens tags ns"
    by simp
  from assms(2) have "distinct (map row_id (tags_table s))"
    "distinct (map canon (tags_associations s))"
    by (simp_all add: consistent_def schema_ok_def)
  then have "distinct (map canon (tags_associations s'))"
    unfolding ta by (rule distinct_canon_after)
  with schema_ok_trans [OF assms(1)] assms(2) show ?thesis
    by (simp add: consistent_def)
qed

lemma consistent_associate:
  assumes "consistent (db t)"
  shows "consistent (db (snd (associate e t tokens tags ns)))"
proof (cases "fst (associate e t tokens tags ns) = Some (Fulfilled ())")
  case True
  from associate_Fulfilled [OF True] assms show ?thesis by (rule consistent_trans)
next
  case False
  with assms show ?thesis by (simp add: associate_unfulfilled)
qed

lemma consistent_fresh: "consistent (db fresh)"
  by (simp add: consistent_def schema_ok_def fresh_def)

section \<open>A call without a failing query is fulfilled\<close>

text \<open>
  On a store with distinct ids no uniqueness constraint rejects an insert of the
  transaction, so a call is rejected only when the storage layer fails.
\<close>

lemma insert_tags_ok:
  "distinct texts \<Longrightarrow>
   \<forall>r\<in>set (tags_table s). row_namespace r = ns \<longrightarrow> row_text r \<notin> set texts \<Longrightarrow>
   \<exists>s'. insert_tags s (map (\<lambda>t. (t, ns, c, c)) texts) = Inr s'"
proof (induction texts arbitrary: s)
  case Nil
  then show ?case by simp
next
  case (Cons t ts)
  let ?s = "s\<lparr>tags_table := tags_table s @
      [\<lparr>row_id = next_id s, row_text = t, row_namespace = ns, row_count = 0,
        created_at = Some c, updated_at = Some c\<rparr>], seq := next_id s\<rparr>"
  from Cons.prems have "distinct ts"
    and "\<forall>r\<in>set (tags_table ?s). row_namespace r = ns \<longrightarrow> row_text r \<notin> set ts"
    by auto
  from Cons.IH [OF this] obtain s' where "insert_tags ?s (map (\<lambda>t. (t, ns, c, c)) ts) = Inr s'"
    by blast
  moreover from Cons.prems(2)
  have "\<not> (\<exists>r\<in>set (tags_table s). row_text r = t \<and> row_namespace r = ns)" by auto
  ultimately show ?case by simp
qed

lemma insert_assocs_ok:
  "distinct as \<Longrightarrow> set as \<inter> set (tags_associations s) = {} \<Longrightarrow>
   \<exists>s'. insert_assocs s as = Inr s'"
proof (induction as arbitrary: s)
  case Nil
  then show ?case by simp
next
  case (Cons a as)
  let ?s = "s\<lparr>tags_associations := tags_associations s @ [a]\<rparr>"
  from Cons.prems have "distinct as" "set as \<inter> set (tags_associations ?s) = {}" by auto
  from Cons.IH [OF this] obtain s' where "insert_assocs ?s as = Inr s'" by blast
  moreover from Cons.prems(2) have "a \<notin> set (tags_associations s)" by auto
  ultimately show ?case by simp
qed

lemma uniq_Nil: "uniq [] = []"
  by (simp add: uniq_def)

lemma associate_trans_reliable:
  assumes nf: "\<And>k. \<not> failing e k"
  shows "associate_trans e tokens tags ns s =
     andThen (if missingTagsRaw s tokens tags ns \<noteq> []
              then insert_tags s (map (\<lambda>t. (t, ns, now_created e, now_created e))
                     (missingTagsRaw s tokens tags ns))
              else Inr s) (\<lambda>s1.
     andThen (if missingAssocs (select_assocs s1 (map fst
                    (existingTags s tokens tags ns @
                      (if missingTagsRaw s tokens tags ns = [] then []
                       else select_tags s1 (missingTagsRaw s tokens tags ns) ns))))
                  (associations tags
                    (existingTags s tokens tags ns @
                      (if missingTagsRaw s tokens tags ns = [] then []
                       else select_tags s1 (missingTagsRaw s tokens tags ns) ns))) \<noteq> []
              then insert_assocs s1
                (missingAssocs (select_assocs s1 (map fst
                    (existingTags s tokens tags ns @
                      (if missingTagsRaw s tokens tags ns = [] then []
                       else select_tags s1 (missingTagsRaw s tokens tags ns) ns))))
                  (associations tags
                    (existingTags s tokens tags ns @
                      (if missingTagsRaw s tokens tags ns = [] then []
                       else select_tags s1 (missingTagsRaw s tokens tags ns) ns))))
              else Inr s1) (\<lambda>s2.
     Inr (update_counts s2
       (uniq (map tag_id1
          (missingAssocs (select_assocs s1 (map fst
                    (existingTags s tokens tags ns @
                      (if missingTagsRaw s tokens tags ns = [] then []
                       else select_tags s1 (missingTagsRaw s tokens tags ns) ns))))
                  (associations tags
                    (existingTags s tokens tags ns @
                      (if missingTagsRaw s tokens tags ns = [] then []
                       else select_tags s1 (missingTagsRaw s tokens tags ns) ns)))) @
          map tag_id2
          (missingAssocs (select_assocs s1 (map fst
                    (existingTags s tokens tags ns @
                      (if missingTagsRaw s tokens tags ns = [] then []
                       else select_tags s1 (missingTagsRaw s tokens tags ns) ns))))
                  (associations tags
                    (existingTags s tokens tags ns @
                      (if missingTagsRaw s tokens tags ns = [] then []
                       else select_tags s1 (missingTagsRaw s tokens tags ns) ns))))))
       (now_updated e))))"
  by (auto simp: associate_trans_def andThen_def query_def nf Let_def missingTagsRaw_def
      update_counts_Nil uniq_eq_Nil uniq_Nil split: sum.splits)

lemma andThen_Inr: "andThen (Inr x) f = f x"
  by (simp add: andThen_def)

lemma associate_trans_ok:
  assumes d: "distinct (map row_id (tags_table s))" and nf: "\<And>k. \<not> failing e k"
  shows "\<exists>s'. associate_trans e tokens tags ns s = Inr s'"
proof -
  let ?missing = "missingTagsRaw s tokens tags ns"
  let ?objs = "map (\<lambda>t. (t, ns, now_created e, now_created e)) ?missing"
  have "distinct ?missing"
    by (simp add: missingTagsRaw_def distinct_xor_arrays)
  moreover have "\<forall>r\<in>set (tags_table s). row_namespace r = ns \<longrightarrow> row_text r \<notin> set ?missing"
    using missing_no_row by blast
  ultimately obtain s1 where i1: "insert_tags s ?objs = Inr s1"
    using insert_tags_ok by blast
  from insert_tags_Inr [OF i1]
  have t1: "tags_table s1 = tags_table s @ createdTags e s tokens tags ns"
    and a1: "tags_associations s1 = tags_associations s"
    by (simp_all add: createdTags_def)
  have step1: "(if ?missing \<noteq> [] then insert_tags s ?objs else Inr s) = Inr s1"
    using i1 by (cases "?missing = []") simp_all
  have step2: "existingTags s tokens tags ns @
      (if ?missing = [] then [] else select_tags s1 ?missing ns) = fetchedTags e s tokens tags ns"
    by (simp add: fetchedTags_def createdTags_Nil select_missing [OF t1])
  let ?newA = "insertedAssocs e s tokens tags ns"
  have sel: "\<And>ids. select_assocs s1 ids = select_assocs s ids"
    by (simp add: select_assocs_def a1)
  have "distinct (associations tags (fetchedTags e s tokens tags ns))"
    using distinct_fetched_ids [OF d] by (rule distinct_associations)
  then have "distinct ?newA"
    by (simp add: insertedAssocs_def missingAssocs_def)
  moreover have "set ?newA \<inter> set (tags_associations s1) = {}"
    using insertedAssocs_new [of _ e s tokens tags ns] by (auto simp: a1)
  ultimately obtain s2 where i2: "insert_assocs s1 ?newA = Inr s2"
    using insert_assocs_ok by blast
  have step3: "(if ?newA \<noteq> [] then insert_assocs s1 ?newA else Inr s1) = Inr s2"
    using i2 by (cases "?newA = []") simp_all
  have "associate_trans e tokens tags ns s =
      Inr (update_counts s2 (countedIds e s tokens tags ns) (now_updated e))"
    unfolding associate_trans_reliable [OF nf] step1 andThen_Inr step2 sel
      insertedAssocs_def [symmetric] step3 countedIds_def [symmetric] ..
  then show ?thesis by blast
qed

lemma associate_fulfilled:
  assumes "schema_ok (db t)" and "tokens \<noteq> []" and "tags \<noteq> []" and "\<And>k. \<not> failing e k"
  shows "fst (associate e t tokens tags ns) = Some (Fulfilled ())"
proof -
  from assms(1) have "distinct (map row_id (tags_table (db t)))"
    by (simp add: schema_ok_def)
  from associate_trans_ok [OF this assms(4)] obtain s' where
    "associate_trans e tokens tags (nsOrDefault ns) (db t) = Inr s'" by blast
  with assms(2,3) show ?thesis
    by (simp add: associate_def Let_def transaction_def createSchema_db split: prod.splits)
qed

section \<open>Labels and edges after a call\<close>

lemma filter_distinct_map:
  "distinct (map f xs) \<Longrightarrow> x \<in> set xs \<Longrightarrow> filter (\<lambda>y. f y = f x) xs = [x]"
proof (induction xs)
  case Nil
  then show ?case by simp
next
  case (Cons y ys)
  show ?case
  proof (cases "x = y")
    case True
    from Cons.prems(1) have "f y \<notin> f ` set ys" by simp
    then have "\<forall>z\<in>set ys. f z \<noteq> f y" by (metis imageI)
    with True have "filter (\<lambda>z. f z = f x) ys = []"
      by (simp add: filter_empty_conv)
    with True show ?thesis by simp
  next
    case False
    with Cons.prems have "x \<in> set ys" "f y \<noteq> f x" by auto
    with Cons.IH Cons.prems(1) show ?thesis by simp
  qed
qed

lemma set_allTags: "set (allTags tokens tags) = set tokens \<union> set tags"
  by (simp add: allTags_def set_uniq)

lemma fetched_row:
  assumes "(i, x) \<in> set (fetchedTags e s tokens tags ns)"
  shows "\<exists>r\<in>set (tags_table s @ createdTags e s tokens tags ns).
           row_id r = i \<and> row_text r = x \<and> row_namespace r = ns"
  using assms created_rows_props [of _ "next_id s" ns "now_created e" "missingTagsRaw s tokens tags ns"]
  by (auto simp: fetchedTags_def existingTags_def select_tags_def createdTags_def)

lemma label_rows_bump:
  "tags_table s' = map (bump ids u) rows \<Longrightarrow>
   label_rows s' x ns =
     map (bump ids u) (filter (\<lambda>r. row_text r = x \<and> row_namespace r = ns) rows)"
  by (simp add: label_rows_def filter_map comp_def bump_fields)

lemma label_row_after:
  assumes tt: "tags_table s' = map (bump ids u) (tags_table s @ createdTags e s tokens tags ns)"
    and d: "distinct (map (\<lambda>r. (row_text r, row_namespace r)) (tags_table s))"
    and x: "x \<in> set (allTags tokens tags)"
  shows "\<exists>r. label_rows s' x ns = [r] \<and> (row_id r, x) \<in> set (fetchedTags e s tokens tags ns)"
proof -
  let ?rows = "tags_table s @ createdTags e s tokens tags ns"
  let ?key = "\<lambda>r. (row_text r, row_namespace r)"
  from x have "x \<in> set (map snd (fetchedTags e s tokens tags ns))"
    by (simp only: set_fetched_texts)
  then obtain i where f: "(i, x) \<in> set (fetchedTags e s tokens tags ns)" by auto
  from fetched_row [OF f] obtain r0 where r0: "r0 \<in> set ?rows"
    "row_id r0 = i" "row_text r0 = x" "row_namespace r0 = ns" by blast
  have "distinct (map ?key ?rows)"
    using d by (rule distinct_keys_after)
  from filter_distinct_map [OF this r0(1)] r0
  have "filter (\<lambda>r. row_text r = x \<and> row_namespace r = ns) ?rows = [r0]" by simp
  with label_rows_bump [OF tt, of x ns] have "label_rows s' x ns = [bump ids u r0]"
    by (simp only: list.map)
  with f r0 show ?thesis by (simp add: bump_fields)
qed

lemma edges_between_canon:
  "edges_between s i j =
     filter (\<lambda>a. canon a = canon \<lparr>tag_id1 = i, tag_id2 = j\<rparr>) (tags_associations s)"
  unfolding edges_between_def by (rule filter_cong) (auto simp: canon_eq_iff)

lemma one_edge:
  assumes "distinct (map canon (tags_associations s))"
    and "ex \<in> set (tags_associations s)" and "canon ex = canon \<lparr>tag_id1 = i, tag_id2 = j\<rparr>"
  shows "edges_between s i j = [ex]"
  using filter_distinct_map [OF assms(1,2)] assms(3) by (simp add: edges_between_canon)

lemma tagIds_mem: "(i, x) \<in> set fetched \<Longrightarrow> x \<in> set tags \<Longrightarrow> i \<in> set (tagIds tags fetched)"
  by (force simp: tagIds_def)

lemma tokenIds_mem: "(i, x) \<in> set fetched \<Longrightarrow> x \<notin> set tags \<Longrightarrow> i \<in> set (tokenIds tags fetched)"
  by (force simp: tokenIds_def)

lemma cross_pair_trans:
  assumes run: "associate_trans e tokens tags ns s = Inr s'" and c: "consistent s"
    and x: "x \<in> set tags" and k: "k \<in> set tokens" "k \<notin> set tags"
  shows "\<exists>rt rk ex. label_rows s' x ns = [rt] \<and> label_rows s' k ns = [rk] \<and>
           edges_between s' (row_id rt) (row_id rk) = [ex]"
proof -
  let ?f = "fetchedTags e s tokens tags ns"
  from associate_trans_Inr [OF run]
  have tt: "tags_table s' = map (bump (countedIds e s tokens tags ns) (now_updated e))
        (tags_table s @ createdTags e s tokens tags ns)"
    and ta: "tags_associations s' = tags_associations s @ insertedAssocs e s tokens tags ns"
    by simp_all
  from c have d: "distinct (map (\<lambda>r. (row_text r, row_namespace r)) (tags_table s))"
    by (simp add: consistent_def schema_ok_def)
  from x have "x \<in> set (allTags tokens tags)" by (simp add: set_allTags)
  from label_row_after [OF tt d this] obtain rt where
    rt: "label_rows s' x ns = [rt]" "(row_id rt, x) \<in> set ?f" by blast
  from k have "k \<in> set (allTags tokens tags)" by (simp add: set_allTags)
  from label_row_after [OF tt d this] obtain rk where
    rk: "label_rows s' k ns = [rk]" "(row_id rk, k) \<in> set ?f" by blast
  from rt(2) x have "row_id rt \<in> set (tagIds tags ?f)" by (rule tagIds_mem)
  moreover from rk(2) k(2) have "row_id rk \<in> set (tokenIds tags ?f)" by (rule tokenIds_mem)
  ultimately have "\<lparr>tag_id1 = row_id rt, tag_id2 = row_id rk\<rparr> \<in> set (associations tags ?f)"
    by (auto simp: set_associations)
  from candidate_covered [OF this] obtain ex where
    ex: "ex \<in> set (tags_associations s')"
      "canon ex = canon \<lparr>tag_id1 = row_id rt, tag_id2 = row_id rk\<rparr>"
    unfolding ta by blast
  from consistent_trans [OF run c] have "distinct (map canon (tags_associations s'))"
    by (simp add: consistent_def)
  from one_edge [OF this ex] rt(1) rk(1) show ?thesis by blast
qed

text \<open>
  Claim C3, as amended. On a consistent store, after a fulfilled call of \<^verbatim>\<open>associate\<close>
  every text of the two collections has exactly one label row in the namespace, and for
  every tag \<open>x\<close> and every token \<open>k\<close> that is not itself among the tags, exactly one
  association row lies between the two labels (in one of the two endpoint orders).
\<close>

theorem associate_cross_pairs:
  assumes "consistent (db t)" and "fst (associate e t tokens tags ns) = Some (Fulfilled ())"
  shows "(\<forall>x\<in>set tokens \<union> set tags.
            \<exists>r. label_rows (db (snd (associate e t tokens tags ns))) x (nsOrDefault ns) = [r]) \<and>
         (\<forall>x\<in>set tags. \<forall>k\<in>set tokens - set tags. \<exists>rt rk ex.
            label_rows (db (snd (associate e t tokens tags ns))) x (nsOrDefault ns) = [rt] \<and>
            label_rows (db (snd (associate e t tokens tags ns))) k (nsOrDefault ns) = [rk] \<and>
            edges_between (db (snd (associate e t tokens tags ns))) (row_id rt) (row_id rk) = [ex])"
proof (intro conjI ballI)
  let ?s' = "db (snd (associate e t tokens tags ns))"
  note run = associate_Fulfilled [OF assms(2)]
  fix x assume "x \<in> set tokens \<union> set tags"
  then have x: "x \<in> set (allTags tokens tags)" by (simp add: set_allTags)
  from assms(1) have d: "distinct (map (\<lambda>r. (row_text r, row_namespace r)) (tags_table (db t)))"
    by (simp add: consistent_def schema_ok_def)
  from associate_trans_Inr [OF run]
  have "tags_table ?s' =
      map (bump (countedIds e (db t) tokens tags (nsOrDefault ns)) (now_updated e))
        (tags_table (db t) @ createdTags e (db t) tokens tags (nsOrDefault ns))"
    by simp
  from label_row_after [OF this d x]
  show "\<exists>r. label_rows ?s' x (nsOrDefault ns) = [r]" by blast
next
  fix x k assume "x \<in> set tags" "k \<in> set tokens - set tags"
  then have "x \<in> set tags" "k \<in> set tokens" "k \<notin> set tags" by simp_all
  with associate_Fulfilled [OF assms(2)] assms(1)
  show "\<exists>rt rk ex.
      label_rows (db (snd (associate e t tokens tags ns))) x (nsOrDefault ns) = [rt] \<and>
      label_rows (db (snd (associate e t tokens tags ns))) k (nsOrDefault ns) = [rk] \<and>
      edges_between (db (snd (associate e t tokens tags ns))) (row_id rt) (row_id rk) = [ex]"
    by (rule cross_pair_trans)
qed

lemmas store_eval = consistent_def schema_ok_def canon_def label_rows_def edges_between_def

theorem associate_cross_pairs_witness:
  "\<exists>rt rk ex.
     label_rows (db (snd (associate reliable peter_store [''john'', ''what''] [''what'', ''yes''] None)))
       ''yes'' ''public'' = [rt] \<and>
     label_rows (db (snd (associate reliable peter_store [''john'', ''what''] [''what'', ''yes''] None)))
       ''john'' ''public'' = [rk] \<and>
     edges_between (db (snd (associate reliable peter_store [''john'', ''what''] [''what'', ''yes''] None)))
       (row_id rt) (row_id rk) = [ex]"
proof -
  have c: "consistent (db peter_store)"
    by (simp add: store_eval peter_store_def label_def)
  have f: "fst (associate reliable peter_store [''john'', ''what''] [''what'', ''yes''] None)
      = Some (Fulfilled ())"
    by (simp add: associate_eval)
  have "''yes'' \<in> set [''what'', ''yes'']"
    and "''john'' \<in> set [''john'', ''what''] - set [''what'', ''yes'']" by simp_all
  with associate_cross_pairs [OF c f, THEN conjunct2] show ?thesis
    unfolding nsOrDefault_def by (auto simp only: option.case)
qed

text \<open>
  The claim as stated, an edge for every cross pair, fails on the empty store for
  \<^verbatim>\<open>associate(['a', 'b'], ['a', 'b'])\<close>: both labels are created (ids 1 and 2), both are
  classified as tags, and no association row is written for the cross pair of \<^verbatim>\<open>a\<close>
  and \<^verbatim>\<open>b\<close>.
\<close>

theorem cross_pair_counterexample:
  "fst (associate reliable fresh [''a'', ''b''] [''a'', ''b''] None) = Some (Fulfilled ()) \<and>
   map row_id (label_rows (db (snd (associate reliable fresh [''a'', ''b''] [''a'', ''b''] None)))
     ''a'' ''public'') = [1] \<and>
   map row_id (label_rows (db (snd (associate reliable fresh [''a'', ''b''] [''a'', ''b''] None)))
     ''b'' ''public'') = [2] \<and>
   edges_between (db (snd (associate reliable fresh [''a'', ''b''] [''a'', ''b''] None))) 1 2 = []"
  by (simp add: associate_eval label_rows_def edges_between_def)

lemma partition_fulfilled:
  assumes "schema_ok (db t)" and "fst (associate e t tokens tags ns) = Some (Fulfilled ())"
  shows "(\<exists>new. tags_associations (db (snd (associate e t tokens tags ns))) =
            tags_associations (db t) @ new \<and>
          (\<forall>a\<in>set new. tag_id1 a \<noteq> tag_id2 a \<and>
             tag_id1 a \<in> set (tagIds tags (fetchedTags e (db t) tokens tags (nsOrDefault ns))) \<and>
             tag_id2 a \<in> set (tokenIds tags (fetchedTags e (db t) tokens tags (nsOrDefault ns))))) \<and>
         (\<forall>x\<in>set tokens \<inter> set tags. \<exists>r.
            label_rows (db (snd (associate e t tokens tags ns))) x (nsOrDefault ns) = [r] \<and>
            row_id r \<in> set (tagIds tags (fetchedTags e (db t) tokens tags (nsOrDefault ns))) \<and>
            row_id r \<notin> set (tokenIds tags (fetchedTags e (db t) tokens tags (nsOrDefault ns))))"
proof -
  let ?s = "db t" and ?s' = "db (snd (associate e t tokens tags ns))" and ?n = "nsOrDefault ns"
  let ?f = "fetchedTags e ?s tokens tags ?n"
  from associate_trans_Inr [OF associate_Fulfilled [OF assms(2)]]
  have tt: "tags_table ?s' = map (bump (countedIds e ?s tokens tags ?n) (now_updated e))
        (tags_table ?s @ createdTags e ?s tokens tags ?n)"
    and ta: "tags_associations ?s' = tags_associations ?s @ insertedAssocs e ?s tokens tags ?n"
    by simp_all
  from assms(1) have d: "distinct (map row_id (tags_table ?s))"
    "distinct (map (\<lambda>r. (row_text r, row_namespace r)) (tags_table ?s))"
    by (simp_all add: schema_ok_def)
  have df: "distinct (map fst ?f)"
    using d(1) by (rule distinct_fetched_ids)
  have "tag_id1 a \<noteq> tag_id2 a \<and> tag_id1 a \<in> set (tagIds tags ?f) \<and>
        tag_id2 a \<in> set (tokenIds tags ?f)"
    if "a \<in> set (insertedAssocs e ?s tokens tags ?n)" for a
  proof -
    from that insertedAssocs_subset have "a \<in> set (associations tags ?f)" by blast
    with df show ?thesis
      by (simp add: no_self_loop associations_ids)
  qed
  with ta have edges: "\<exists>new. tags_associations ?s' = tags_associations ?s @ new \<and>
      (\<forall>a\<in>set new. tag_id1 a \<noteq> tag_id2 a \<and> tag_id1 a \<in> set (tagIds tags ?f) \<and>
         tag_id2 a \<in> set (tokenIds tags ?f))"
    by blast
  have both: "\<exists>r. label_rows ?s' x ?n = [r] \<and> row_id r \<in> set (tagIds tags ?f) \<and>
      row_id r \<notin> set (tokenIds tags ?f)"
    if "x \<in> set tokens \<inter> set tags" for x
  proof -
    from that have "x \<in> set (allTags tokens tags)" and xt: "x \<in> set tags"
      by (simp_all add: set_allTags)
    from label_row_after [OF tt d(2) this(1)] obtain r where
      r: "label_rows ?s' x ?n = [r]" "(row_id r, x) \<in> set ?f" by blast
    from r(2) xt have "row_id r \<in> set (tagIds tags ?f)" by (rule tagIds_mem)
    with partition_distinct(3) [OF df, of tags] r(1) show ?thesis by auto
  qed
  from edges both show ?thesis by blast
qed

text \<open>
  Claim C8. On a store that satisfies the declared constraints, every association row a
  call of \<^verbatim>\<open>associate\<close> inserts, whatever the outcome of the call, has two different
  endpoints, the first taken from \<^verbatim>\<open>tagIds\<close> and the second from \<^verbatim>\<open>tokenIds\<close> (the
  partition of the rows of \<^verbatim>\<open>scope.fetchedTags\<close>). And when both collections are
  non-empty and the storage layer answers every query, the call is fulfilled and a text
  that is both among the tokens and among the tags, new or not, has exactly one label
  row afterwards, whose id is in \<^verbatim>\<open>tagIds\<close> and not in \<^verbatim>\<open>tokenIds\<close>.
\<close>

theorem associate_partition:
  assumes "schema_ok (db t)"
  shows "(\<exists>new. tags_associations (db (snd (associate e t tokens tags ns))) =
            tags_associations (db t) @ new \<and>
          (\<forall>a\<in>set new. tag_id1 a \<noteq> tag_id2 a \<and>
             tag_id1 a \<in> set (tagIds tags (fetchedTags e (db t) tokens tags (nsOrDefault ns))) \<and>
             tag_id2 a \<in> set (tokenIds tags (fetchedTags e (db t) tokens tags (nsOrDefault ns))))) \<and>
         (tokens \<noteq> [] \<and> tags \<noteq> [] \<and> (\<forall>k. \<not> failing e k) \<longrightarrow>
            fst (associate e t tokens tags ns) = Some (Fulfilled ()) \<and>
            (\<forall>x\<in>set tokens \<inter> set tags. \<exists>r.
               label_rows (db (snd (associate e t tokens tags ns))) x (nsOrDefault ns) = [r] \<and>
               row_id r \<in> set (tagIds tags (fetchedTags e (db t) tokens tags (nsOrDefault ns))) \<and>
               row_id r \<notin> set (tokenIds tags (fetchedTags e (db t) tokens tags (nsOrDefault ns)))))"
proof (intro conjI impI)
  show "\<exists>new. tags_associations (db (snd (associate e t tokens tags ns))) =
            tags_associations (db t) @ new \<and>
          (\<forall>a\<in>set new. tag_id1 a \<noteq> tag_id2 a \<and>
             tag_id1 a \<in> set (tagIds tags (fetchedTags e (db t) tokens tags (nsOrDefault ns))) \<and>
             tag_id2 a \<in> set (tokenIds tags (fetchedTags e (db t) tokens tags (nsOrDefault ns))))"
  proof (cases "fst (associate e t tokens tags ns) = Some (Fulfilled ())")
    case True
    from partition_fulfilled [OF assms True] show ?thesis by (rule conjunct1)
  next
    case False
    then have "tags_associations (db (snd (associate e t tokens tags ns))) =
        tags_associations (db t) @ []"
      by (simp add: associate_unfulfilled)
    then show ?thesis by (intro exI [of _ "[]"]) simp
  qed
next
  assume h: "tokens \<noteq> [] \<and> tags \<noteq> [] \<and> (\<forall>k. \<not> failing e k)"
  then show f: "fst (associate e t tokens tags ns) = Some (Fulfilled ())"
    using assms by (intro associate_fulfilled) simp_all
  from partition_fulfilled [OF assms f]
  show "\<forall>x\<in>set tokens \<inter> set tags. \<exists>r.
      label_rows (db (snd (associate e t tokens tags ns))) x (nsOrDefault ns) = [r] \<and>
      row_id r \<in> set (tagIds tags (fetchedTags e (db t) tokens tags (nsOrDefault ns))) \<and>
      row_id r \<notin> set (tokenIds tags (fetchedTags e (db t) tokens tags (nsOrDefault ns)))"
    by (rule conjunct2)
qed

theorem associate_partition_witness:
  "label_rows (db peter_store) ''new'' ''public'' = [] \<and>
   fst (associate reliable peter_store [''john'', ''new''] [''new'', ''yes''] None)
     = Some (Fulfilled ()) \<and>
   (\<exists>new. tags_associations
        (db (snd (associate reliable peter_store [''john'', ''new''] [''new'', ''yes''] None))) =
        tags_associations (db peter_store) @ new \<and>
      new = [\<lparr>tag_id1 = 2, tag_id2 = 5\<rparr>, \<lparr>tag_id1 = 6, tag_id2 = 5\<rparr>] \<and>
      list_all (\<lambda>a. tag_id1 a \<noteq> tag_id2 a) new) \<and>
   (\<exists>r. label_rows
        (db (snd (associate reliable peter_store [''john'', ''new''] [''new'', ''yes''] None)))
        ''new'' ''public'' = [r] \<and>
      row_id r \<in> set (tagIds [''new'', ''yes'']
        (fetchedTags reliable (db peter_store) [''john'', ''new''] [''new'', ''yes''] ''public'')) \<and>
      row_id r \<notin> set (tokenIds [''new'', ''yes'']
        (fetchedTags reliable (db peter_store) [''john'', ''new''] [''new'', ''yes''] ''public'')))"
proof -
  let ?s' = "db (snd (associate reliable peter_store [''john'', ''new''] [''new'', ''yes''] None))"
  have c: "schema_ok (db peter_store)"
    by (simp add: store_eval peter_store_def label_def)
  have h: "[''john'', ''new''] \<noteq> [] \<and> [''new'', ''yes''] \<noteq> [] \<and> (\<forall>k. \<not> failing reliable k)"
    by (simp add: reliable_def)
  note inst = associate_partition [OF c, of reliable "[''john'', ''new'']" "[''new'', ''yes'']" None]
  from inst [THEN conjunct2] h
  have f: "fst (associate reliable peter_store [''john'', ''new''] [''new'', ''yes''] None)
      = Some (Fulfilled ())"
    and both: "\<forall>x\<in>set [''john'', ''new''] \<inter> set [''new'', ''yes'']. \<exists>r.
      label_rows ?s' x (nsOrDefault None) = [r] \<and>
      row_id r \<in> set (tagIds [''new'', ''yes'']
        (fetchedTags reliable (db peter_store) [''john'', ''new''] [''new'', ''yes''] (nsOrDefault None))) \<and>
      row_id r \<notin> set (tokenIds [''new'', ''yes'']
        (fetchedTags reliable (db peter_store) [''john'', ''new''] [''new'', ''yes''] (nsOrDefault None)))"
    by blast+
  have "''new'' \<in> set [''john'', ''new''] \<inter> set [''new'', ''yes'']" by simp
  with both have row: "\<exists>r. label_rows ?s' ''new'' ''public'' = [r] \<and>
      row_id r \<in> set (tagIds [''new'', ''yes'']
        (fetchedTags reliable (db peter_store) [''john'', ''new''] [''new'', ''yes''] ''public'')) \<and>
      row_id r \<notin> set (tokenIds [''new'', ''yes'']
        (fetchedTags reliable (db peter_store) [''john'', ''new''] [''new'', ''yes''] ''public''))"
    unfolding nsOrDefault_def by (auto simp only: option.case)
  from inst [THEN conjunct1] obtain new where
    n: "tags_associations ?s' = tags_associations (db peter_store) @ new"
    and loops: "\<forall>a\<in>set new. tag_id1 a \<noteq> tag_id2 a" by blast
  have ev: "tags_associations ?s' =
      tags_associations (db peter_store) @ [\<lparr>tag_id1 = 2, tag_id2 = 5\<rparr>, \<lparr>tag_id1 = 6, tag_id2 = 5\<rparr>]"
    by (simp add: associate_eval)
  from n ev have "new = [\<lparr>tag_id1 = 2, tag_id2 = 5\<rparr>, \<lparr>tag_id1 = 6, tag_id2 = 5\<rparr>]" by simp
  with n loops have edges: "\<exists>new. tags_associations ?s' = tags_associations (db peter_store) @ new \<and>
      new = [\<lparr>tag_id1 = 2, tag_id2 = 5\<rparr>, \<lparr>tag_id1 = 6, tag_id2 = 5\<rparr>] \<and>
      list_all (\<lambda>a. tag_id1 a \<noteq> tag_id2 a) new"
    by (auto simp: list_all_iff)
  have old: "label_rows (db peter_store) ''new'' ''public'' = []"
    by (simp add: label_rows_def peter_store_def label_def)
  from old f edges row show ?thesis by blast
qed

section \<open>The same pair twice\<close>

lemma select_tags_cong: "set xs = set ys \<Longrightarrow> select_tags s xs ns = select_tags s ys ns"
  by (simp add: select_tags_def)

lemma covered_inserted_Nil:
  assumes "\<forall>c\<in>set (associations tags F). \<exists>ex\<in>set (tags_associations s). canon ex = canon c"
  shows "missingAssocs (select_assocs s (map fst F)) (associations tags F) = []"
proof -
  have "list_ex (\<lambda>ex. equalArrays (values_of c) (values_of ex)) (select_assocs s (map fst F))"
    if c: "c \<in> set (associations tags F)" for c
  proof -
    from assms c obtain ex where ex: "ex \<in> set (tags_associations s)" "canon ex = canon c"
      by blast
    from c have "tag_id1 c \<in> set (map fst F)" "tag_id2 c \<in> set (map fst F)"
      using associations_ids tagIds_subset tokenIds_subset by blast+
    moreover from ex(2) have "tag_id1 ex = tag_id1 c \<or> tag_id1 ex = tag_id2 c"
      by (auto simp: canon_eq_iff)
    ultimately have "tag_id1 ex \<in> set (map fst F)"
      by (elim disjE) simp_all
    with ex(1) have "ex \<in> set (select_assocs s (map fst F))"
      by (simp add: select_assocs_def)
    with ex(2) [symmetric] show ?thesis
      unfolding list_ex_iff equalArrays_canon by blast
  qed
  then show ?thesis
    by (simp add: missingAssocs_def filter_empty_conv)
qed

lemma associate_trans_reversed:
  assumes run: "associate_trans e [a] [b] ns s = Inr s'" and ab: "a \<noteq> b"
    and run2: "associate_trans e' [b] [a] ns s' = Inr s''"
  shows "s'' = s'"
proof -
  let ?F = "fetchedTags e s [a] [b] ns"
  from associate_trans_Inr [OF run]
  have tt: "tags_table s' = map (bump (countedIds e s [a] [b] ns) (now_updated e))
        (tags_table s @ createdTags e s [a] [b] ns)"
    and ta: "tags_associations s' = tags_associations s @ insertedAssocs e s [a] [b] ns"
    by simp_all
  have sets: "set (allTags [b] [a]) = set (allTags [a] [b])"
    by (auto simp: set_allTags)
  have "existingTags s' [b] [a] ns = existingTags s' [a] [b] ns"
    unfolding existingTags_def using sets by (rule select_tags_cong)
  also have "\<dots> = ?F" using tt by (rule existingTags_after)
  finally have ex: "existingTags s' [b] [a] ns = ?F" .
  have "set (allTags [b] [a]) = set (map snd (existingTags s' [b] [a] ns))"
    unfolding ex sets by (simp only: set_fetched_texts)
  then have miss: "missingTagsRaw s' [b] [a] ns = []"
    unfolding missingTagsRaw_def by (rule xor_arrays_Nil)
  then have fe: "fetchedTags e' s' [b] [a] ns = ?F"
    by (simp add: fetchedTags_def createdTags_Nil ex)
  have texts: "snd p = a \<or> snd p = b" if "p \<in> set ?F" for p
  proof -
    from that have "snd p \<in> set (map snd ?F)" by simp
    then have "snd p \<in> set (allTags [a] [b])" by (simp only: set_fetched_texts)
    then show ?thesis by (auto simp: set_allTags)
  qed
  have "\<exists>ex\<in>set (tags_associations s'). canon ex = canon c"
    if c: "c \<in> set (associations [a] ?F)" for c
  proof -
    from c obtain p q where p: "p \<in> set ?F" "snd p = a" "tag_id1 c = fst p"
      and q: "q \<in> set ?F" "snd q \<noteq> a" "tag_id2 c = fst q"
      by (auto simp: associations_def tagIds_def tokenIds_def)
    from texts [OF q(1)] q(2) have "snd q = b" by simp
    with q(1) have "fst q \<in> set (tagIds [b] ?F)" by (simp add: tagIds_def)
    moreover from p ab have "fst p \<in> set (tokenIds [b] ?F)" by (simp add: tokenIds_def)
    ultimately have "\<lparr>tag_id1 = fst q, tag_id2 = fst p\<rparr> \<in> set (associations [b] ?F)"
      by (auto simp: set_associations)
    from candidate_covered [OF this] obtain ex where
      "ex \<in> set (tags_associations s')" "canon ex = canon \<lparr>tag_id1 = fst q, tag_id2 = fst p\<rparr>"
      unfolding ta by blast
    moreover have "canon \<lparr>tag_id1 = fst q, tag_id2 = fst p\<rparr> = canon c"
      using p(3) q(3) by (simp add: canon_eq_iff)
    ultimately show ?thesis by auto
  qed
  then have "missingAssocs (select_assocs s' (map fst ?F)) (associations [a] ?F) = []"
    by (intro covered_inserted_Nil ballI)
  then have "insertedAssocs e' s' [b] [a] ns = []"
    by (simp add: insertedAssocs_def fe)
  with run2 miss show ?thesis
    by (rule associate_trans_noop)
qed

lemma associate_reversed:
  assumes "fst (associate e t [a] [b] ns) = Some (Fulfilled ())" and "a \<noteq> b"
  shows "db (snd (associate e' (snd (associate e t [a] [b] ns)) [b] [a] ns)) =
         db (snd (associate e t [a] [b] ns))"
proof (cases "fst (associate e' (snd (associate e t [a] [b] ns)) [b] [a] ns)
    = Some (Fulfilled ())")
  case True
  from associate_Fulfilled [OF assms(1)] assms(2) associate_Fulfilled [OF True]
  show ?thesis by (rule associate_trans_reversed)
next
  case False
  then show ?thesis by (rule associate_unfulfilled)
qed

text \<open>
  Claim C2, as amended. On a consistent store and for two different texts \<open>a\<close> and \<open>b\<close>,
  after a fulfilled \<^verbatim>\<open>associate([a], [b])\<close> a second call, \<^verbatim>\<open>associate([a], [b])\<close> or
  \<^verbatim>\<open>associate([b], [a])\<close>, leaves the whole store as it was (no new label row, no new
  association row), and exactly one association row lies between the two labels.
\<close>

theorem associate_pair_once:
  assumes "consistent (db t)" and "a \<noteq> b"
    and "fst (associate e t [a] [b] ns) = Some (Fulfilled ())"
  shows "db (snd (associate e' (snd (associate e t [a] [b] ns)) [a] [b] ns)) =
           db (snd (associate e t [a] [b] ns)) \<and>
         db (snd (associate e' (snd (associate e t [a] [b] ns)) [b] [a] ns)) =
           db (snd (associate e t [a] [b] ns)) \<and>
         (\<exists>ra rb ex.
            label_rows (db (snd (associate e t [a] [b] ns))) a (nsOrDefault ns) = [ra] \<and>
            label_rows (db (snd (associate e t [a] [b] ns))) b (nsOrDefault ns) = [rb] \<and>
            edges_between (db (snd (associate e t [a] [b] ns))) (row_id ra) (row_id rb) = [ex])"
proof -
  have "b \<in> set [b]" "a \<in> set [a]" "a \<notin> set [b]" using assms(2) by simp_all
  with associate_Fulfilled [OF assms(3)] assms(1)
  have "\<exists>rt rk ex.
      label_rows (db (snd (associate e t [a] [b] ns))) b (nsOrDefault ns) = [rt] \<and>
      label_rows (db (snd (associate e t [a] [b] ns))) a (nsOrDefault ns) = [rk] \<and>
      edges_between (db (snd (associate e t [a] [b] ns))) (row_id rt) (row_id rk) = [ex]"
    by (rule cross_pair_trans)
  moreover have "\<And>s i j. edges_between s i j = edges_between s j i"
    unfolding edges_between_def by (rule filter_cong) auto
  ultimately have "\<exists>ra rb ex.
      label_rows (db (snd (associate e t [a] [b] ns))) a (nsOrDefault ns) = [ra] \<and>
      label_rows (db (snd (associate e t [a] [b] ns))) b (nsOrDefault ns) = [rb] \<and>
      edges_between (db (snd (associate e t [a] [b] ns))) (row_id ra) (row_id rb) = [ex]"
    by metis
  with associate_twice [OF assms(3), of e'] associate_reversed [OF assms(3,2), of e']
  show ?thesis by simp
qed

theorem associate_pair_once_witness:
  "db (snd (associate (failing_at FetchAssocs)
         (snd (associate reliable peter_store [''what''] [''yes''] None)) [''what''] [''yes''] None)) =
     db (snd (associate reliable peter_store [''what''] [''yes''] None)) \<and>
   db (snd (associate reliable
         (snd (associate reliable peter_store [''what''] [''yes''] None)) [''yes''] [''what''] None)) =
     db (snd (associate reliable peter_store [''what''] [''yes''] None)) \<and>
   (\<exists>ra rb ex.
      label_rows (db (snd (associate reliable peter_store [''what''] [''yes''] None)))
        ''what'' ''public'' = [ra] \<and>
      label_rows (db (snd (associate reliable peter_store [''what''] [''yes''] None)))
        ''yes'' ''public'' = [rb] \<and>
      edges_between (db (snd (associate reliable peter_store [''what''] [''yes''] None)))
        (row_id ra) (row_id rb) = [ex])"
proof -
  have c: "consistent (db peter_store)"
    by (simp add: store_eval peter_store_def label_def)
  have n: "''what'' \<noteq> ''yes''" by simp
  have f: "fst (associate reliable peter_store [''what''] [''yes''] None) = Some (Fulfilled ())"
    by (simp add: associate_eval)
  from associate_pair_once [OF c n f, of "failing_at FetchAssocs"]
    associate_pair_once [OF c n f, of reliable]
  show ?thesis
    unfolding nsOrDefault_def by (simp only: option.case simp_thms)
qed

text \<open>
  The claim as stated, for every pair of texts, fails when both texts are the same:
  \<^verbatim>\<open>associate(['x'], ['x'])\<close> twice on the empty store creates the label \<^verbatim>\<open>x\<close> (id 1)
  and no association row.
\<close>

theorem same_text_counterexample:
  "fst (associate reliable fresh [''x''] [''x''] None) = Some (Fulfilled ()) \<and>
   fst (associate reliable (snd (associate reliable fresh [''x''] [''x''] None)) [''x''] [''x''] None)
     = Some (Fulfilled ()) \<and>
   map row_id (label_rows
     (db (snd (associate reliable (snd (associate reliable fresh [''x''] [''x''] None))
        [''x''] [''x''] None))) ''x'' ''public'') = [1] \<and>
   edges_between
     (db (snd (associate reliable (snd (associate reliable fresh [''x''] [''x''] None))
        [''x''] [''x''] None))) 1 1 = []"
proof -
  have s1: "associate reliable fresh [''x''] [''x''] None =
     (Some (Fulfilled ()),
      \<lparr>db = \<lparr>tags_table =
              [\<lparr>row_id = 1, row_text = ''x'', row_namespace = ''public'', row_count = 0,
                created_at = Some 1, updated_at = Some 1\<rparr>],
            tags_associations = [], seq = 1\<rparr>,
       schemaCreated = True, pendingOperations = [Associate]\<rparr>)"
    by (simp add: associate_eval)
  show ?thesis
    unfolding s1 snd_conv fst_conv
    by (simp add: associate_eval label_rows_def edges_between_def)
qed

end
